theory Spec2Isabelle
  imports Main "HOL-Library.Monad_Syntax" "HOL-Library.AList"
begin

section \<open>Values and configuration nodes\<close>

text \<open>
  The embedding follows \<^verbatim>\<open>hqsbase/qonfig/qonfig.py\<close>. A \<^verbatim>\<open>Qonfig\<close> object is a
  node holding the attributes \<^verbatim>\<open>_class_type\<close>, \<^verbatim>\<open>_qonfig_name\<close>, \<^verbatim>\<open>_values\<close>,
  \<^verbatim>\<open>_receives_values\<close> and \<^verbatim>\<open>_never_receives_values\<close>. The dictionary
  \<^verbatim>\<open>_values\<close> is an association list in insertion order; \<^verbatim>\<open>keys()\<close> (the keys of
  \<^verbatim>\<open>_defaults\<close>) are the keys of that list, since the constructor fills both
  dictionaries from the same class attribute and no method adds or removes a key.

  Nodes are held by value: a node stored under a key is owned by the node that holds
  it. The Python attribute \<^verbatim>\<open>_parent\<close> is a back reference to that owner; it is read
  only by \<^verbatim>\<open>root\<close> and by the copy constructors and has no field of its own here.
  Numbers are integers; the two calculator scalars carry integer payloads.
\<close>

type_synonym key = string
type_synonym class_ref = string

datatype val =
    VEmpty
  | VNone
  | VBool bool
  | VInt int
  | VStr string
  | VCalcFloat int
  | VCalcComplex int int
  | VOpaque nat
  | VList "val list"
  | VDict "(string \<times> val) list"
  | VNode qnode
and qnode =
  Qonfig (class_type: class_ref) (qonfig_name: string) (qvalues: "(key \<times> val) list")
         (receives_values_flag: bool) (never_receives_values: bool)

datatype error =
    KeyError
  | ImportError
  | NotQonfigurableError
  | IncompleteQonfigError

fun is_node :: "val \<Rightarrow> bool" where
  "is_node (VNode _) = True"
| "is_node _ = False"

text \<open>\<^verbatim>\<open>hasattr(v, '__iter__') and any(isinstance(s, Qonfig) for s in v)\<close>: of the
  values above lists, dictionaries and strings are iterable; a dictionary iterates over
  its keys and a string over its characters, so only a list can hold a node.\<close>

fun seq_with_nodes :: "val \<Rightarrow> bool" where
  "seq_with_nodes (VList xs) = list_ex is_node xs"
| "seq_with_nodes _ = False"

definition keys :: "qnode \<Rightarrow> key list" where
  "keys self = map fst (qvalues self)"

definition set_values :: "qnode \<Rightarrow> (key \<times> val) list \<Rightarrow> qnode" where
  "set_values self vs =
     Qonfig (class_type self) (qonfig_name self) vs
            (receives_values_flag self) (never_receives_values self)"

text \<open>The property \<^verbatim>\<open>receives_values\<close>.\<close>

definition receives_values :: "qnode \<Rightarrow> bool" where
  "receives_values self \<longleftrightarrow> receives_values_flag self \<and> \<not> never_receives_values self"

definition reserved :: "key \<Rightarrow> bool" where
  "reserved k \<longleftrightarrow> k = ''name'' \<or> k = ''qonfig_name''"

text \<open>\<^verbatim>\<open>__getitem__\<close> and \<^verbatim>\<open>get\<close> (without a default argument).\<close>

definition getitem :: "qnode \<Rightarrow> key \<Rightarrow> error + val" where
  "getitem self k =
     (if reserved k then Inr (VStr (qonfig_name self))
      else case map_of (qvalues self) k of
             None \<Rightarrow> Inl KeyError
           | Some v \<Rightarrow> Inr v)"

definition get :: "qnode \<Rightarrow> key \<Rightarrow> error + val" where
  "get self k =
     (case map_of (qvalues self) k of
        None \<Rightarrow> Inl KeyError
      | Some v \<Rightarrow> Inr v)"

subsection \<open>Shallow copy\<close>

text \<open>
  \<^verbatim>\<open>copy(value)\<close>. For a node this is \<^verbatim>\<open>__copy__\<close>: a new node of the same class is
  constructed (so \<^verbatim>\<open>_receives_values\<close> is the constructor's default \<^verbatim>\<open>True\<close> and
  \<^verbatim>\<open>_never_receives_values\<close> is read from the class again), and every key of the
  fresh node is overwritten: by a list of copies when the value is a sequence holding
  nodes, by \<^verbatim>\<open>copy(self[key])\<close> otherwise, where \<^verbatim>\<open>self[key]\<close> is \<^verbatim>\<open>__getitem__\<close> and
  answers the reserved names with the qualified name. Every other value is copied
  one level deep, which a value semantics does not distinguish from the original.
\<close>

fun copy_val :: "val \<Rightarrow> val"
  and copy_node :: "qnode \<Rightarrow> qnode"
  and copy_items :: "string \<Rightarrow> (key \<times> val) list \<Rightarrow> (key \<times> val) list"
  and copy_item :: "string \<Rightarrow> key \<Rightarrow> val \<Rightarrow> val"
  and copy_elems :: "val list \<Rightarrow> val list" where
  "copy_val (VNode q) = VNode (copy_node q)"
| "copy_val VEmpty = VEmpty"
| "copy_val VNone = VNone"
| "copy_val (VBool b) = VBool b"
| "copy_val (VInt i) = VInt i"
| "copy_val (VStr s) = VStr s"
| "copy_val (VCalcFloat x) = VCalcFloat x"
| "copy_val (VCalcComplex x y) = VCalcComplex x y"
| "copy_val (VOpaque n) = VOpaque n"
| "copy_val (VList xs) = VList xs"
| "copy_val (VDict d) = VDict d"
| "copy_node (Qonfig c nm vs r nv) = Qonfig c nm (copy_items nm vs) True nv"
| "copy_items nm [] = []"
| "copy_items nm ((k, v) # rest) = (k, copy_item nm k v) # copy_items nm rest"
| "copy_item nm k (VList xs) =
     (if list_ex is_node xs then VList (copy_elems xs)
      else if reserved k then VStr nm else VList xs)"
| "copy_item nm k (VNode q) = (if reserved k then VStr nm else VNode (copy_node q))"
| "copy_item nm k VEmpty = (if reserved k then VStr nm else VEmpty)"
| "copy_item nm k VNone = (if reserved k then VStr nm else VNone)"
| "copy_item nm k (VBool b) = (if reserved k then VStr nm else VBool b)"
| "copy_item nm k (VInt i) = (if reserved k then VStr nm else VInt i)"
| "copy_item nm k (VStr s) = (if reserved k then VStr nm else VStr s)"
| "copy_item nm k (VCalcFloat x) = (if reserved k then VStr nm else VCalcFloat x)"
| "copy_item nm k (VCalcComplex x y) = (if reserved k then VStr nm else VCalcComplex x y)"
| "copy_item nm k (VOpaque n) = (if reserved k then VStr nm else VOpaque n)"
| "copy_item nm k (VDict d) = (if reserved k then VStr nm else VDict d)"
| "copy_elems [] = []"
| "copy_elems (x # xs) = copy_val x # copy_elems xs"

subsection \<open>Keyed assignment and downward propagation\<close>

text \<open>
  \<^verbatim>\<open>__setitem__\<close> and \<^verbatim>\<open>propagate_value\<close> call each other. When the assigned value is
  itself a node that declares the key, the Python recursion never ends, so
  \<^verbatim>\<open>propagate_value\<close> takes fuel, one unit per level of the tree it descends, and
  \<open>None\<close> stands for a run that does not return. \<^verbatim>\<open>__setitem__\<close> is written over
  the propagation function it calls.
\<close>

definition setitem_with ::
  "(key \<Rightarrow> val \<Rightarrow> qnode \<Rightarrow> qnode option) \<Rightarrow> key \<Rightarrow> val \<Rightarrow> qnode \<Rightarrow> qnode option" where
  "setitem_with prop k v self =
     (if k \<notin> set (keys self) then prop k v self
      else
        let self1 = set_values self (AList.update k (copy_val v) (qvalues self))
        in if receives_values_flag self then prop k (copy_val v) self1 else Some self1)"

text \<open>One element of a sequence that holds nodes: the write is guarded by the element's
  own receptiveness, the recursion is not.\<close>

fun propagate_elem ::
  "(key \<Rightarrow> val \<Rightarrow> qnode \<Rightarrow> qnode option) \<Rightarrow> key \<Rightarrow> val \<Rightarrow> val \<Rightarrow> val option" where
  "propagate_elem prop k v (VNode e) =
     do {
       e1 \<leftarrow> (if receives_values e \<and> k \<in> set (keys e) then setitem_with prop k v e
              else Some e);
       e2 \<leftarrow> prop k v e1;
       Some (VNode e2)
     }"
| "propagate_elem prop k v x = Some x"

fun propagate_elems ::
  "(key \<Rightarrow> val \<Rightarrow> qnode \<Rightarrow> qnode option) \<Rightarrow> key \<Rightarrow> val \<Rightarrow> val list \<Rightarrow> val list option" where
  "propagate_elems prop k v [] = Some []"
| "propagate_elems prop k v (x # xs) =
     do {
       x' \<leftarrow> propagate_elem prop k v x;
       xs' \<leftarrow> propagate_elems prop k v xs;
       Some (x' # xs')
     }"

text \<open>One iteration of the loop over \<^verbatim>\<open>self.keys()\<close>, on the value held under the
  loop's key.\<close>

fun propagate_entry ::
  "(key \<Rightarrow> val \<Rightarrow> qnode \<Rightarrow> qnode option) \<Rightarrow> key \<Rightarrow> val \<Rightarrow> val \<Rightarrow> val option" where
  "propagate_entry prop k v (VNode c) =
     (if receives_values c then
        do {
          c1 \<leftarrow> (if k \<in> set (keys c) then setitem_with prop k v c else Some c);
          c2 \<leftarrow> prop k v c1;
          Some (VNode c2)
        }
      else Some (VNode c))"
| "propagate_entry prop k v (VList xs) =
     (if list_ex is_node xs then map_option VList (propagate_elems prop k v xs)
      else Some (VList xs))"
| "propagate_entry prop k v x = Some x"

fun propagate_items ::
  "(key \<Rightarrow> val \<Rightarrow> qnode \<Rightarrow> qnode option) \<Rightarrow> key \<Rightarrow> val \<Rightarrow> (key \<times> val) list
     \<Rightarrow> (key \<times> val) list option" where
  "propagate_items prop k v [] = Some []"
| "propagate_items prop k v ((k', x) # rest) =
     do {
       x' \<leftarrow> propagate_entry prop k v x;
       rest' \<leftarrow> propagate_items prop k v rest;
       Some ((k', x') # rest')
     }"

primrec propagate_value :: "nat \<Rightarrow> key \<Rightarrow> val \<Rightarrow> qnode \<Rightarrow> qnode option" where
  "propagate_value 0 = (\<lambda>k v self. None)"
| "propagate_value (Suc f) =
     (\<lambda>k v self.
        map_option (set_values self) (propagate_items (propagate_value f) k v (qvalues self)))"

definition setitem :: "nat \<Rightarrow> key \<Rightarrow> val \<Rightarrow> qnode \<Rightarrow> qnode option" where
  "setitem f = setitem_with (propagate_value f)"

text \<open>\<^verbatim>\<open>propagate_all\<close>: each value held is propagated under its key, in the order of the
  keys; the value is read when its turn comes.\<close>

fun propagate_keys :: "nat \<Rightarrow> key list \<Rightarrow> qnode \<Rightarrow> qnode option" where
  "propagate_keys f [] self = Some self"
| "propagate_keys f (k # ks) self =
     (case map_of (qvalues self) k of
        None \<Rightarrow> None
      | Some v \<Rightarrow>
          (case propagate_value f k v self of
             None \<Rightarrow> None
           | Some self' \<Rightarrow> propagate_keys f ks self'))"

definition propagate_all :: "nat \<Rightarrow> qnode \<Rightarrow> qnode option" where
  "propagate_all f self =
     (if \<not> never_receives_values self then propagate_keys f (keys self) self else Some self)"

subsection \<open>Propagation restricted to a class\<close>

text \<open>
  \<^verbatim>\<open>_propagate_overwrites\<close>. \<^verbatim>\<open>issubclass\<close> is a relation on class references that the
  Python class hierarchy fixes; it is a parameter. The assignment to a child is the
  child's \<^verbatim>\<open>__setitem__\<close>, which propagates by \<^verbatim>\<open>propagate_value\<close>.
\<close>

fun overwrite_child ::
  "(class_ref \<Rightarrow> class_ref \<Rightarrow> bool) \<Rightarrow> (key \<Rightarrow> val \<Rightarrow> qnode \<Rightarrow> qnode option)
     \<Rightarrow> (key \<Rightarrow> val \<Rightarrow> qnode \<Rightarrow> qnode option) \<Rightarrow> key \<Rightarrow> class_ref \<Rightarrow> val \<Rightarrow> val \<Rightarrow> val option" where
  "overwrite_child issubclass prop ov k specific_class v (VNode c) =
     (if receives_values c \<and> issubclass (class_type c) specific_class then
        do {
          c1 \<leftarrow> (if k \<in> set (keys c) then setitem_with prop k v c else Some c);
          c2 \<leftarrow> ov k v c1;
          Some (VNode c2)
        }
      else Some (VNode c))"
| "overwrite_child issubclass prop ov k specific_class v x = Some x"

fun overwrite_elems ::
  "(class_ref \<Rightarrow> class_ref \<Rightarrow> bool) \<Rightarrow> (key \<Rightarrow> val \<Rightarrow> qnode \<Rightarrow> qnode option)
     \<Rightarrow> (key \<Rightarrow> val \<Rightarrow> qnode \<Rightarrow> qnode option) \<Rightarrow> key \<Rightarrow> class_ref \<Rightarrow> val \<Rightarrow> val list
     \<Rightarrow> val list option" where
  "overwrite_elems issubclass prop ov k specific_class v [] = Some []"
| "overwrite_elems issubclass prop ov k specific_class v (x # xs) =
     do {
       x' \<leftarrow> overwrite_child issubclass prop ov k specific_class v x;
       xs' \<leftarrow> overwrite_elems issubclass prop ov k specific_class v xs;
       Some (x' # xs')
     }"

fun overwrite_entry ::
  "(class_ref \<Rightarrow> class_ref \<Rightarrow> bool) \<Rightarrow> (key \<Rightarrow> val \<Rightarrow> qnode \<Rightarrow> qnode option)
     \<Rightarrow> (key \<Rightarrow> val \<Rightarrow> qnode \<Rightarrow> qnode option) \<Rightarrow> key \<Rightarrow> class_ref \<Rightarrow> val \<Rightarrow> val \<Rightarrow> val option" where
  "overwrite_entry issubclass prop ov k specific_class v (VNode c) =
     overwrite_child issubclass prop ov k specific_class v (VNode c)"
| "overwrite_entry issubclass prop ov k specific_class v (VList xs) =
     (if list_ex is_node xs
      then map_option VList (overwrite_elems issubclass prop ov k specific_class v xs)
      else Some (VList xs))"
| "overwrite_entry issubclass prop ov k specific_class v x = Some x"

fun overwrite_items ::
  "(class_ref \<Rightarrow> class_ref \<Rightarrow> bool) \<Rightarrow> (key \<Rightarrow> val \<Rightarrow> qnode \<Rightarrow> qnode option)
     \<Rightarrow> (key \<Rightarrow> val \<Rightarrow> qnode \<Rightarrow> qnode option) \<Rightarrow> key \<Rightarrow> class_ref \<Rightarrow> val
     \<Rightarrow> (key \<times> val) list \<Rightarrow> (key \<times> val) list option" where
  "overwrite_items issubclass prop ov k specific_class v [] = Some []"
| "overwrite_items issubclass prop ov k specific_class v ((k', x) # rest) =
     do {
       x' \<leftarrow> overwrite_entry issubclass prop ov k specific_class v x;
       rest' \<leftarrow> overwrite_items issubclass prop ov k specific_class v rest;
       Some ((k', x') # rest')
     }"

primrec propagate_overwrites ::
  "(class_ref \<Rightarrow> class_ref \<Rightarrow> bool) \<Rightarrow> nat \<Rightarrow> key \<Rightarrow> class_ref \<Rightarrow> val \<Rightarrow> qnode \<Rightarrow> qnode option" where
  "propagate_overwrites issubclass 0 = (\<lambda>k specific_class v self. None)"
| "propagate_overwrites issubclass (Suc f) =
     (\<lambda>k specific_class v self.
        map_option (set_values self)
          (overwrite_items issubclass (propagate_value f)
             (\<lambda>k' v'. propagate_overwrites issubclass f k' specific_class v') k specific_class v
             (qvalues self)))"

section \<open>Validation\<close>

subsection \<open>Completeness\<close>

text \<open>
  The property \<^verbatim>\<open>is_complete\<close>. The loop over the keys stops at the first key that
  makes \<^verbatim>\<open>complete\<close> false; the whole loop is skipped for a node whose class sets
  \<^verbatim>\<open>_qonfig_never_receives_values\<close>.
\<close>

fun is_complete :: "qnode \<Rightarrow> bool"
  and complete_items :: "(key \<times> val) list \<Rightarrow> bool"
  and complete_entry :: "val \<Rightarrow> bool"
  and complete_elems :: "val list \<Rightarrow> bool" where
  "is_complete (Qonfig c nm vs r nv) = (if \<not> nv then complete_items vs else True)"
| "complete_items [] = True"
| "complete_items ((k, v) # rest) = (if complete_entry v then complete_items rest else False)"
| "complete_entry VEmpty = False"
| "complete_entry (VNode q) = is_complete q"
| "complete_entry (VList xs) = (if list_ex is_node xs then complete_elems xs else True)"
| "complete_entry VNone = True"
| "complete_entry (VBool b) = True"
| "complete_entry (VInt i) = True"
| "complete_entry (VStr s) = True"
| "complete_entry (VCalcFloat x) = True"
| "complete_entry (VCalcComplex x y) = True"
| "complete_entry (VOpaque n) = True"
| "complete_entry (VDict d) = True"
| "complete_elems [] = True"
| "complete_elems (VNode q # xs) = (if is_complete q then complete_elems xs else False)"
| "complete_elems (VEmpty # xs) = complete_elems xs"
| "complete_elems (VNone # xs) = complete_elems xs"
| "complete_elems (VBool b # xs) = complete_elems xs"
| "complete_elems (VInt i # xs) = complete_elems xs"
| "complete_elems (VStr s # xs) = complete_elems xs"
| "complete_elems (VCalcFloat x # xs) = complete_elems xs"
| "complete_elems (VCalcComplex x y # xs) = complete_elems xs"
| "complete_elems (VOpaque n # xs) = complete_elems xs"
| "complete_elems (VList ys # xs) = complete_elems xs"
| "complete_elems (VDict d # xs) = complete_elems xs"

text \<open>
  The values a node declares, together with those of the nodes found by expanding
  nested nodes and the node elements of sequences: the reading of ``reachable'' that
  the specification gives for completeness.
\<close>

fun reachable_values :: "qnode \<Rightarrow> val list"
  and reachable_items :: "(key \<times> val) list \<Rightarrow> val list"
  and reachable_entry :: "val \<Rightarrow> val list"
  and reachable_elems :: "val list \<Rightarrow> val list"
  and reachable_entry_node :: "val \<Rightarrow> val list" where
  "reachable_values (Qonfig c nm vs r nv) = reachable_items vs"
| "reachable_items [] = []"
| "reachable_items ((k, v) # rest) = v # reachable_entry v @ reachable_items rest"
| "reachable_entry (VNode q) = reachable_values q"
| "reachable_entry (VList xs) = reachable_elems xs"
| "reachable_entry VEmpty = []"
| "reachable_entry VNone = []"
| "reachable_entry (VBool b) = []"
| "reachable_entry (VInt i) = []"
| "reachable_entry (VStr s) = []"
| "reachable_entry (VCalcFloat x) = []"
| "reachable_entry (VCalcComplex x y) = []"
| "reachable_entry (VOpaque n) = []"
| "reachable_entry (VDict d) = []"
| "reachable_elems [] = []"
| "reachable_elems (x # xs) = reachable_entry_node x @ reachable_elems xs"
| "reachable_entry_node (VNode q) = reachable_values q"
| "reachable_entry_node VEmpty = []"
| "reachable_entry_node VNone = []"
| "reachable_entry_node (VBool b) = []"
| "reachable_entry_node (VInt i) = []"
| "reachable_entry_node (VStr s) = []"
| "reachable_entry_node (VCalcFloat x) = []"
| "reachable_entry_node (VCalcComplex x y) = []"
| "reachable_entry_node (VOpaque n) = []"
| "reachable_entry_node (VList ys) = []"
| "reachable_entry_node (VDict d) = []"

text \<open>The same expansion, not entering a node flagged \<^verbatim>\<open>_never_receives_values\<close>.\<close>

fun inspected_values :: "qnode \<Rightarrow> val list"
  and inspected_items :: "(key \<times> val) list \<Rightarrow> val list"
  and inspected_entry :: "val \<Rightarrow> val list"
  and inspected_elems :: "val list \<Rightarrow> val list"
  and inspected_entry_node :: "val \<Rightarrow> val list" where
  "inspected_values (Qonfig c nm vs r nv) = (if nv then [] else inspected_items vs)"
| "inspected_items [] = []"
| "inspected_items ((k, v) # rest) = v # inspected_entry v @ inspected_items rest"
| "inspected_entry (VNode q) = inspected_values q"
| "inspected_entry (VList xs) = inspected_elems xs"
| "inspected_entry VEmpty = []"
| "inspected_entry VNone = []"
| "inspected_entry (VBool b) = []"
| "inspected_entry (VInt i) = []"
| "inspected_entry (VStr s) = []"
| "inspected_entry (VCalcFloat x) = []"
| "inspected_entry (VCalcComplex x y) = []"
| "inspected_entry (VOpaque n) = []"
| "inspected_entry (VDict d) = []"
| "inspected_elems [] = []"
| "inspected_elems (x # xs) = inspected_entry_node x @ inspected_elems xs"
| "inspected_entry_node (VNode q) = inspected_values q"
| "inspected_entry_node VEmpty = []"
| "inspected_entry_node VNone = []"
| "inspected_entry_node (VBool b) = []"
| "inspected_entry_node (VInt i) = []"
| "inspected_entry_node (VStr s) = []"
| "inspected_entry_node (VCalcFloat x) = []"
| "inspected_entry_node (VCalcComplex x y) = []"
| "inspected_entry_node (VOpaque n) = []"
| "inspected_entry_node (VList ys) = []"
| "inspected_entry_node (VDict d) = []"


subsection \<open>Classes that a node configures\<close>

text \<open>
  A node keeps a reference to the Python class it configures. What the methods read
  from that class: the attribute \<^verbatim>\<open>_qonfig_defaults_dict\<close> (key, documentation and
  default, in the order of the dictionary), the optional \<^verbatim>\<open>_requirements\<close> (key,
  predicate on the node, documentation), the optional
  \<^verbatim>\<open>_qonfig_never_receives_values\<close> and the class method \<^verbatim>\<open>from_qonfig\<close>. An absent
  attribute is \<open>None\<close>. The constructor copies the requirements into the node; they
  are read from the class here, a class being fixed once nodes of it exist.
\<close>

record 'i pyclass =
  cls_qonfig_name :: string
  qonfig_defaults_dict :: "(key \<times> string \<times> val) list option"
  cls_requirements :: "(key \<times> (qnode \<Rightarrow> bool) \<times> string) list option"
  qonfig_never_receives_values :: "bool option"
  from_qonfig :: "(qnode \<Rightarrow> 'i) option"

type_synonym 'i class_table = "class_ref \<Rightarrow> 'i pyclass"

definition requirements_of :: "'i class_table \<Rightarrow> qnode \<Rightarrow> (key \<times> (qnode \<Rightarrow> bool) \<times> string) list" where
  "requirements_of ct self =
     (case cls_requirements (ct (class_type self)) of None \<Rightarrow> [] | Some rs \<Rightarrow> rs)"

subsection \<open>Requirements\<close>

text \<open>The second loop of \<^verbatim>\<open>meets_requirements\<close>: each predicate is applied to the node
  until one of them answers false.\<close>

fun requirements_hold :: "(key \<times> (qnode \<Rightarrow> bool) \<times> string) list \<Rightarrow> qnode \<Rightarrow> bool" where
  "requirements_hold [] self = True"
| "requirements_hold ((k, p, d) # rest) self = (if p self then requirements_hold rest self else False)"

fun meets_requirements :: "'i class_table \<Rightarrow> qnode \<Rightarrow> bool"
  and meets_items :: "'i class_table \<Rightarrow> (key \<times> val) list \<Rightarrow> bool"
  and meets_entry :: "'i class_table \<Rightarrow> val \<Rightarrow> bool"
  and meets_elems :: "'i class_table \<Rightarrow> val list \<Rightarrow> bool"
  and meets_elem :: "'i class_table \<Rightarrow> val \<Rightarrow> bool" where
  "meets_requirements ct (Qonfig c nm vs r nv) =
     (if \<not> nv then
        (if meets_items ct vs
         then requirements_hold (requirements_of ct (Qonfig c nm vs r nv)) (Qonfig c nm vs r nv)
         else False)
      else True)"
| "meets_items ct [] = True"
| "meets_items ct ((k, v) # rest) = (if meets_entry ct v then meets_items ct rest else False)"
| "meets_entry ct (VNode q) = meets_requirements ct q"
| "meets_entry ct (VList xs) = (if list_ex is_node xs then meets_elems ct xs else True)"
| "meets_entry ct _ = True"
| "meets_elems ct [] = True"
| "meets_elems ct (x # xs) = (if meets_elem ct x then meets_elems ct xs else False)"
| "meets_elem ct (VNode q) = meets_requirements ct q"
| "meets_elem ct _ = True"

definition is_valid :: "'i class_table \<Rightarrow> qnode \<Rightarrow> bool" where
  "is_valid ct self \<longleftrightarrow> is_complete self \<and> meets_requirements ct self"

subsection \<open>Diagnostics\<close>

text \<open>\<^verbatim>\<open>'{}_{}'.format(key, cs)\<close> with the index in decimal.\<close>

fun str_of_nat :: "nat \<Rightarrow> string" where
  "str_of_nat n =
     (if n < 10 then [''0123456789'' ! n]
      else str_of_nat (n div 10) @ [''0123456789'' ! (n mod 10)])"

declare str_of_nat.simps [simp del]

definition key_index :: "key \<Rightarrow> nat \<Rightarrow> key" where
  "key_index k cs = k @ ''_'' @ str_of_nat cs"

text \<open>
  The two diagnostic properties build a dictionary by assignments. The functions below
  list the assignments that the loops make, in order, and \<open>dict_of\<close> makes them on
  an empty dictionary. An assignment inside the loop over a sequence is listed with
  its index, and the loop over the keys forms the name \<^verbatim>\<open>key_index\<close> from it.
\<close>

definition dict_of :: "(string \<times> val) list \<Rightarrow> (string \<times> val) list" where
  "dict_of ws = fold (\<lambda>(k, v). AList.update k v) ws []"

definition entry_name :: "key \<Rightarrow> nat option \<Rightarrow> string" where
  "entry_name k i = (case i of None \<Rightarrow> k | Some cs \<Rightarrow> key_index k cs)"

definition named :: "key \<Rightarrow> (nat option \<times> val) list \<Rightarrow> (string \<times> val) list" where
  "named k ws = map (\<lambda>(i, d). (entry_name k i, d)) ws"

text \<open>The last loop of \<^verbatim>\<open>violated_requirements\<close>, over the node's own requirements.\<close>

fun violated_own ::
  "(key \<times> (qnode \<Rightarrow> bool) \<times> string) list \<Rightarrow> qnode \<Rightarrow> (string \<times> val) list \<Rightarrow> (string \<times> val) list" where
  "violated_own [] self acc = acc"
| "violated_own ((k, p, d) # rest) self acc =
     violated_own rest self (if \<not> p self then AList.update k (VStr d) acc else acc)"

text \<open>
  \<^verbatim>\<open>violated_requirements\<close>. The index of a sequence element counts the node elements
  only, as the source enumerates the filtered list: \<open>violated_elems\<close> answers for the
  node elements, in order, with the nested dictionary of an element that does not meet
  its requirements and with \<open>None\<close> for one that does.
\<close>

fun violated_requirements :: "'i class_table \<Rightarrow> qnode \<Rightarrow> (string \<times> val) list"
  and violated_items :: "'i class_table \<Rightarrow> (key \<times> val) list \<Rightarrow> (string \<times> val) list"
  and violated_entry :: "'i class_table \<Rightarrow> val \<Rightarrow> (nat option \<times> val) list"
  and violated_elems :: "'i class_table \<Rightarrow> val list \<Rightarrow> val option list" where
  "violated_requirements ct (Qonfig c nm vs r nv) =
     (if \<not> nv then
        violated_own (requirements_of ct (Qonfig c nm vs r nv)) (Qonfig c nm vs r nv)
          (dict_of (violated_items ct vs))
      else [])"
| "violated_items ct [] = []"
| "violated_items ct ((k, v) # rest) = named k (violated_entry ct v) @ violated_items ct rest"
| "violated_entry ct (VNode q) =
     (if \<not> meets_requirements ct q then [(None, VDict (violated_requirements ct q))] else [])"
| "violated_entry ct (VList xs) =
     (if list_ex is_node xs
      then concat (map (\<lambda>(cs, d). case d of None \<Rightarrow> [] | Some d' \<Rightarrow> [(Some cs, d')])
                       (enumerate 0 (violated_elems ct xs)))
      else [])"
| "violated_entry ct _ = []"
| "violated_elems ct [] = []"
| "violated_elems ct (VNode q # xs) =
     (if \<not> meets_requirements ct q then Some (VDict (violated_requirements ct q)) else None)
       # violated_elems ct xs"
| "violated_elems ct (_ # xs) = violated_elems ct xs"

text \<open>
  \<^verbatim>\<open>missing_values\<close>. Here the loop over a sequence enumerates every element:
  \<open>missing_elems\<close> answers for each element with the nested dictionary of an
  incomplete node and with \<open>None\<close> for anything else, for which the loop's
  \<^verbatim>\<open>else\<close> branch assigns the name itself.
\<close>

fun missing_values :: "qnode \<Rightarrow> (string \<times> val) list"
  and missing_items :: "(key \<times> val) list \<Rightarrow> (string \<times> val) list"
  and missing_entry :: "val \<Rightarrow> (nat option \<times> val option) list"
  and missing_elems :: "val list \<Rightarrow> val option list" where
  "missing_values (Qonfig c nm vs r nv) = (if \<not> nv then dict_of (missing_items vs) else [])"
| "missing_items [] = []"
| "missing_items ((k, v) # rest) =
     map (\<lambda>(i, d). (entry_name k i, case d of None \<Rightarrow> VStr (entry_name k i) | Some d' \<Rightarrow> d'))
         (missing_entry v)
       @ missing_items rest"
| "missing_entry VEmpty = [(None, None)]"
| "missing_entry (VNode q) =
     (if \<not> is_complete q then [(None, Some (VDict (missing_values q)))] else [])"
| "missing_entry (VList xs) =
     (if list_ex is_node xs
      then map (\<lambda>(cs, d). (Some cs, d)) (enumerate 0 (missing_elems xs))
      else [])"
| "missing_entry _ = []"
| "missing_elems [] = []"
| "missing_elems (VNode q # xs) =
     (if \<not> is_complete q then Some (VDict (missing_values q)) else None) # missing_elems xs"
| "missing_elems (_ # xs) = None # missing_elems xs"

section \<open>Instantiation\<close>


section \<open>Export to a flat series\<close>

text \<open>\<^verbatim>\<open>enforce_yaml\<close>. Anything with \<^verbatim>\<open>keys\<close> and \<^verbatim>\<open>__getitem__\<close> becomes a dictionary, a node
  included: its reserved keys read the name of the node. Builtin values are kept, a
  calculator value gives its dictionary or its number, and everything else is written as
  the representation of the Empty sentinel.\<close>

type_synonym series = "(string \<times> val) list"

definition empty_repr :: string where
  "empty_repr = ''<empty 'Empty'>''"

fun enforce_yaml :: "val \<Rightarrow> val" where
  "enforce_yaml (VDict d) = VDict (map (\<lambda>(k, v). (k, enforce_yaml v)) d)"
| "enforce_yaml (VNode (Qonfig c nm vs r nv)) =
     VDict (map (\<lambda>(k, v). (k, if reserved k then VStr nm else enforce_yaml v)) vs)"
| "enforce_yaml (VList xs) = VList (map enforce_yaml xs)"
| "enforce_yaml VNone = VNone"
| "enforce_yaml (VBool b) = VBool b"
| "enforce_yaml (VInt i) = VInt i"
| "enforce_yaml (VStr s) = VStr s"
| "enforce_yaml (VCalcComplex re im) =
     VDict [(''is_calculator_complex'', VBool True), (''real'', VInt re), (''imag'', VInt im)]"
| "enforce_yaml (VCalcFloat x) = VInt x"
| "enforce_yaml VEmpty = VStr empty_repr"
| "enforce_yaml (VOpaque n) = VStr empty_repr"

text \<open>The arguments of \<^verbatim>\<open>to_pd_series\<close>, together with the class table that validity reads
  and with \<^verbatim>\<open>re.fullmatch\<close>, which is a parameter: \<open>fullmatch opts pattern name\<close> says that
  the pattern matches the whole of the name.\<close>

record 'i export_options =
  classes :: "'i class_table"
  fullmatch :: "string \<Rightarrow> string \<Rightarrow> bool"
  valid_check :: bool
  excluded_keys :: "string list"
  enforce_yaml_compatible :: bool

definition excluded :: "'i export_options \<Rightarrow> string \<Rightarrow> bool" where
  "excluded opts name = list_ex (\<lambda>pattern. fullmatch opts pattern name) (excluded_keys opts)"

text \<open>A series is the list of its labelled values, in order. Assignment to a label
  overwrites where the label is present and appends otherwise; deletion of an absent
  label raises \<^verbatim>\<open>KeyError\<close>.\<close>

definition series_set :: "string \<Rightarrow> val \<Rightarrow> series \<Rightarrow> series" where
  "series_set k v s =
     (if k \<in> fst ` set s then map (\<lambda>(l, x). if l = k then (l, v) else (l, x)) s
      else s @ [(k, v)])"

definition add_prefix :: "string \<Rightarrow> series \<Rightarrow> series" where
  "add_prefix p s = map (\<lambda>(l, x). (p @ l, x)) s"

definition series_del :: "string \<Rightarrow> series \<Rightarrow> error + series" where
  "series_del k s =
     (if k \<in> fst ` set s then Inr (filter (\<lambda>(l, x). l \<noteq> k) s) else Inl KeyError)"

text \<open>What one key contributes to the series: nothing when the key itself is excluded,
  the series of the node it holds, the series of the elements of an iterable holding
  nodes only (an empty list, dictionary or string is such an iterable), or its value.\<close>

datatype contribution =
    Skip
  | Leaf val
  | Sub "error + series"
  | SubList "(error + series) list"

fun append_subs :: "key \<Rightarrow> nat \<Rightarrow> (error + series) list \<Rightarrow> series \<Rightarrow> error + series" where
  "append_subs k cs [] series = Inr series"
| "append_subs k cs (Inl e # rest) series = Inl e"
| "append_subs k cs (Inr sub # rest) series =
     append_subs k (Suc cs) rest (series @ add_prefix (key_index k cs @ ''_'') sub)"

fun export_loop :: "bool \<Rightarrow> (key \<times> val \<times> contribution) list \<Rightarrow> series \<Rightarrow> error + series" where
  "export_loop ey [] series = Inr series"
| "export_loop ey ((k, v, Skip) # rest) series = export_loop ey rest series"
| "export_loop ey ((k, v, Sub (Inl e)) # rest) series = Inl e"
| "export_loop ey ((k, v, Sub (Inr sub)) # rest) series =
     export_loop ey rest (series @ add_prefix (k @ ''_'') sub)"
| "export_loop ey ((k, v, SubList subs) # rest) series =
     (case append_subs k 0 subs series of
        Inl e \<Rightarrow> Inl e
      | Inr series' \<Rightarrow> export_loop ey rest series')"
| "export_loop ey ((k, v, Leaf x) # rest) series =
     export_loop ey rest
       (series_set k (if ey then enforce_yaml (copy_val x) else copy_val x) series)"

text \<open>The last loop of \<^verbatim>\<open>to_pd_series\<close>: it runs over the labels that the series had
  when the loop began and deletes each one that a pattern matches.\<close>

fun delete_excluded :: "(string \<Rightarrow> bool) \<Rightarrow> string list \<Rightarrow> series \<Rightarrow> error + series" where
  "delete_excluded ex [] series = Inr series"
| "delete_excluded ex (key # rest) series =
     (if ex key then
        (case series_del key series of
           Inl e \<Rightarrow> Inl e
         | Inr series' \<Rightarrow> delete_excluded ex rest series')
      else delete_excluded ex rest series)"

fun pd_series :: "'i export_options \<Rightarrow> qnode \<Rightarrow> error + series" where
  "pd_series opts (Qonfig c nm vs r nv) =
     (if \<not> is_valid (classes opts) (Qonfig c nm vs r nv) \<and> valid_check opts
      then Inl IncompleteQonfigError
      else
        (case export_loop (enforce_yaml_compatible opts)
                (map (\<lambda>(k, v).
                   (k, v,
                    if excluded opts k then Skip
                    else (case v of
                            VNode q \<Rightarrow> Sub (pd_series opts q)
                          | VList xs \<Rightarrow>
                              if list_all is_node xs
                              then SubList (map (\<lambda>x. case x of VNode q \<Rightarrow> pd_series opts q | _ \<Rightarrow> Inr []) xs)
                              else Leaf v
                          | VDict d \<Rightarrow> if d = [] then SubList [] else Leaf v
                          | VStr s \<Rightarrow> if s = [] then SubList [] else Leaf v
                          | _ \<Rightarrow> Leaf v))) vs)
                [(''qonfig_name'', VStr nm)] of
           Inl e \<Rightarrow> Inl e
         | Inr series \<Rightarrow> delete_excluded (excluded opts) (map fst series) series))"

definition to_pd_series ::
  "'i class_table \<Rightarrow> (string \<Rightarrow> string \<Rightarrow> bool) \<Rightarrow> bool \<Rightarrow> string list \<Rightarrow> bool \<Rightarrow> qnode
     \<Rightarrow> error + series" where
  "to_pd_series ct fm vc excl ey self =
     pd_series \<lparr>classes = ct, fullmatch = fm, valid_check = vc, excluded_keys = excl,
                enforce_yaml_compatible = ey\<rparr> self"

section \<open>Specification-side notions\<close>

text \<open>The entry that \<^verbatim>\<open>missing_values\<close> is expected to hold for a key whose value is \<open>v\<close>:
  the key itself for an unset value, the nested dictionary for an incomplete nested
  node, nothing otherwise.\<close>

definition missing_of :: "key \<Rightarrow> val \<Rightarrow> val option" where
  "missing_of k v =
     (case v of
        VEmpty \<Rightarrow> Some (VStr k)
      | VNode q \<Rightarrow> (if is_complete q then None else Some (VDict (missing_values q)))
      | _ \<Rightarrow> None)"

text \<open>
  No node held in a value declares the key \<open>k\<close>: the value itself when it is a node,
  its children, and the node elements of its sequences, at any depth that propagation
  reaches.
\<close>

fun kfree_val :: "key \<Rightarrow> val \<Rightarrow> bool"
  and kfree_node :: "key \<Rightarrow> qnode \<Rightarrow> bool"
  and kfree_items :: "key \<Rightarrow> (key \<times> val) list \<Rightarrow> bool"
  and kfree_elems :: "key \<Rightarrow> val list \<Rightarrow> bool"
  and kfree_elem :: "key \<Rightarrow> val \<Rightarrow> bool" where
  "kfree_val k (VNode q) = kfree_node k q"
| "kfree_val k (VList xs) = kfree_elems k xs"
| "kfree_val k _ = True"
| "kfree_node k (Qonfig c nm vs r nv) = (k \<notin> fst ` set vs \<and> kfree_items k vs)"
| "kfree_items k [] = True"
| "kfree_items k ((k', v) # rest) = (kfree_val k v \<and> kfree_items k rest)"
| "kfree_elems k [] = True"
| "kfree_elems k (x # xs) = (kfree_elem k x \<and> kfree_elems k xs)"
| "kfree_elem k (VNode q) = kfree_node k q"
| "kfree_elem k _ = True"

text \<open>The number of levels of nodes below and including a node, through children and
  node elements of sequences.\<close>

fun hnode :: "qnode \<Rightarrow> nat"
  and hitems :: "(key \<times> val) list \<Rightarrow> nat"
  and hentry :: "val \<Rightarrow> nat"
  and helems :: "val list \<Rightarrow> nat"
  and helem :: "val \<Rightarrow> nat" where
  "hnode (Qonfig c nm vs r nv) = Suc (hitems vs)"
| "hitems [] = 0"
| "hitems ((k, v) # rest) = max (hentry v) (hitems rest)"
| "hentry (VNode q) = hnode q"
| "hentry (VList xs) = helems xs"
| "hentry _ = 0"
| "helems [] = 0"
| "helems (x # xs) = max (helem x) (helems xs)"
| "helem (VNode q) = hnode q"
| "helem _ = 0"

text \<open>
  What a propagation of the stored value \<open>w\<close> under the key \<open>k\<close> is expected to leave
  behind, written by recursion on the tree: every receptive child that declares \<open>k\<close>
  holds \<open>w\<close>, the subtree of a child that is not receptive is as it was, and an
  element of a sequence is entered whether it is receptive or not.
\<close>

definition store :: "key \<Rightarrow> val \<Rightarrow> qnode \<Rightarrow> qnode" where
  "store k w q =
     (if k \<in> set (keys q) then set_values q (AList.update k w (qvalues q)) else q)"

fun broadcast_node :: "key \<Rightarrow> val \<Rightarrow> qnode \<Rightarrow> qnode"
  and broadcast_items :: "key \<Rightarrow> val \<Rightarrow> (key \<times> val) list \<Rightarrow> (key \<times> val) list"
  and broadcast_entry :: "key \<Rightarrow> val \<Rightarrow> val \<Rightarrow> val"
  and broadcast_elems :: "key \<Rightarrow> val \<Rightarrow> val list \<Rightarrow> val list"
  and broadcast_elem :: "key \<Rightarrow> val \<Rightarrow> val \<Rightarrow> val" where
  "broadcast_node k w (Qonfig c nm vs r nv) = Qonfig c nm (broadcast_items k w vs) r nv"
| "broadcast_items k w [] = []"
| "broadcast_items k w ((k', x) # rest) = (k', broadcast_entry k w x) # broadcast_items k w rest"
| "broadcast_entry k w (VNode c) =
     (if receives_values c then VNode (store k w (broadcast_node k w c)) else VNode c)"
| "broadcast_entry k w (VList xs) =
     (if list_ex is_node xs then VList (broadcast_elems k w xs) else VList xs)"
| "broadcast_entry k w x = x"
| "broadcast_elems k w [] = []"
| "broadcast_elems k w (x # xs) = broadcast_elem k w x # broadcast_elems k w xs"
| "broadcast_elem k w (VNode e) =
     (if receives_values e then VNode (store k w (broadcast_node k w e))
      else VNode (broadcast_node k w e))"
| "broadcast_elem k w x = x"

text \<open>
  The nodes below a node that a propagation started at the node writes to: a child that
  is receptive and everything found below it in the same way, and below every node
  element of a sequence, the element itself when it is receptive.
\<close>

fun targets :: "qnode \<Rightarrow> qnode list"
  and targets_items :: "(key \<times> val) list \<Rightarrow> qnode list"
  and targets_entry :: "val \<Rightarrow> qnode list"
  and targets_elems :: "val list \<Rightarrow> qnode list"
  and targets_elem :: "val \<Rightarrow> qnode list" where
  "targets (Qonfig c nm vs r nv) = targets_items vs"
| "targets_items [] = []"
| "targets_items ((k, v) # rest) = targets_entry v @ targets_items rest"
| "targets_entry (VNode c) = (if receives_values c then c # targets c else [])"
| "targets_entry (VList xs) = targets_elems xs"
| "targets_entry _ = []"
| "targets_elems [] = []"
| "targets_elems (x # xs) = targets_elem x @ targets_elems xs"
| "targets_elem (VNode e) = (if receives_values e then e # targets e else targets e)"
| "targets_elem _ = []"

text \<open>
  What a propagation restricted to the class \<open>T\<close> is expected to leave behind: a child
  or sequence element that is receptive and of a subclass of \<open>T\<close> holds \<open>w\<close> when it
  declares \<open>k\<close> (with everything that the assignment to it propagates), and is
  entered otherwise; any other child or element is as it was.
\<close>

fun overwritten_node :: "(class_ref \<Rightarrow> class_ref \<Rightarrow> bool) \<Rightarrow> class_ref \<Rightarrow> key \<Rightarrow> val \<Rightarrow> qnode \<Rightarrow> qnode"
  and overwritten_items ::
    "(class_ref \<Rightarrow> class_ref \<Rightarrow> bool) \<Rightarrow> class_ref \<Rightarrow> key \<Rightarrow> val \<Rightarrow> (key \<times> val) list \<Rightarrow> (key \<times> val) list"
  and overwritten_entry :: "(class_ref \<Rightarrow> class_ref \<Rightarrow> bool) \<Rightarrow> class_ref \<Rightarrow> key \<Rightarrow> val \<Rightarrow> val \<Rightarrow> val"
  and overwritten_elems ::
    "(class_ref \<Rightarrow> class_ref \<Rightarrow> bool) \<Rightarrow> class_ref \<Rightarrow> key \<Rightarrow> val \<Rightarrow> val list \<Rightarrow> val list"
  and overwritten_child :: "(class_ref \<Rightarrow> class_ref \<Rightarrow> bool) \<Rightarrow> class_ref \<Rightarrow> key \<Rightarrow> val \<Rightarrow> val \<Rightarrow> val" where
  "overwritten_node sub T k w (Qonfig c nm vs r nv) = Qonfig c nm (overwritten_items sub T k w vs) r nv"
| "overwritten_items sub T k w [] = []"
| "overwritten_items sub T k w ((k', x) # rest) =
     (k', overwritten_entry sub T k w x) # overwritten_items sub T k w rest"
| "overwritten_entry sub T k w (VNode c) =
     (if receives_values c \<and> sub (class_type c) T then
        (if k \<in> set (keys c) then VNode (store k w (broadcast_node k w c))
         else VNode (overwritten_node sub T k w c))
      else VNode c)"
| "overwritten_entry sub T k w (VList xs) =
     (if list_ex is_node xs then VList (overwritten_elems sub T k w xs) else VList xs)"
| "overwritten_entry sub T k w x = x"
| "overwritten_elems sub T k w [] = []"
| "overwritten_elems sub T k w (x # xs) =
     overwritten_child sub T k w x # overwritten_elems sub T k w xs"
| "overwritten_child sub T k w (VNode c) =
     (if receives_values c \<and> sub (class_type c) T then
        (if k \<in> set (keys c) then VNode (store k w (broadcast_node k w c))
         else VNode (overwritten_node sub T k w c))
      else VNode c)"
| "overwritten_child sub T k w x = x"



text \<open>The propagation function \<open>prop\<close> agrees with \<open>broadcast_node\<close> on every run whose
  result has at most \<open>f\<close> levels, for values whose copy is \<open>w\<close> and that hold no node
  declaring \<open>k\<close>.\<close>

definition refines_upto ::
  "(key \<Rightarrow> val \<Rightarrow> qnode \<Rightarrow> qnode option) \<Rightarrow> key \<Rightarrow> val \<Rightarrow> nat \<Rightarrow> bool" where
  "refines_upto prop k w f \<longleftrightarrow>
     (\<forall>N v. kfree_val k v \<longrightarrow> copy_val v = w \<longrightarrow> hnode (broadcast_node k w N) \<le> f
        \<longrightarrow> prop k v N = Some (broadcast_node k w N))"

text \<open>A value that is set and is neither a node nor a sequence holding nodes.\<close>

definition plain :: "val \<Rightarrow> bool" where
  "plain v \<longleftrightarrow> v \<noteq> VEmpty \<and> \<not> is_node v \<and> \<not> seq_with_nodes v"

text \<open>The labels of an export, read off the tree. At every level the key of an entry is
  matched first, and an excluded entry gives no label, whatever lies below it; then the
  labels of the level are matched, before the level above puts its prefix in front.\<close>

definition indexed_names :: "key \<Rightarrow> string list list \<Rightarrow> string list" where
  "indexed_names k subs =
     concat (map (\<lambda>(cs, ns). map (\<lambda>l. key_index k cs @ ''_'' @ l) ns) (enumerate 0 subs))"

fun exported_names :: "'i export_options \<Rightarrow> qnode \<Rightarrow> string list" where
  "exported_names opts (Qonfig c nm vs r nv) =
     filter (\<lambda>n. \<not> excluded opts n)
       (''qonfig_name'' #
        concat (map (\<lambda>(k, v).
          if excluded opts k then []
          else (case v of
                  VNode q \<Rightarrow> map (\<lambda>l. k @ ''_'' @ l) (exported_names opts q)
                | VList xs \<Rightarrow>
                    if list_all is_node xs
                    then indexed_names k
                           (map (\<lambda>x. case x of VNode q \<Rightarrow> exported_names opts q | _ \<Rightarrow> []) xs)
                    else [k]
                | VDict d \<Rightarrow> if d = [] then [] else [k]
                | VStr s \<Rightarrow> if s = [] then [] else [k]
                | _ \<Rightarrow> [k])) vs))"

text \<open>The labels that one entry gives, and the labels of a level before the last loop.\<close>

definition entry_names :: "'i export_options \<Rightarrow> key \<times> val \<Rightarrow> string list" where
  "entry_names opts = (\<lambda>(k, v).
          if excluded opts k then []
          else (case v of
                  VNode q \<Rightarrow> map (\<lambda>l. k @ ''_'' @ l) (exported_names opts q)
                | VList xs \<Rightarrow>
                    if list_all is_node xs
                    then indexed_names k
                           (map (\<lambda>x. case x of VNode q \<Rightarrow> exported_names opts q | _ \<Rightarrow> []) xs)
                    else [k]
                | VDict d \<Rightarrow> if d = [] then [] else [k]
                | VStr s \<Rightarrow> if s = [] then [] else [k]
                | _ \<Rightarrow> [k]))"

definition raw_names :: "'i export_options \<Rightarrow> qnode \<Rightarrow> string list" where
  "raw_names opts self = ''qonfig_name'' # concat (map (entry_names opts) (qvalues self))"

text \<open>A node can be exported when it is valid (where validity is asked for), the labels of
  the level are distinct, and the same holds of every node below a key that is not
  excluded.\<close>

fun exportable :: "'i export_options \<Rightarrow> qnode \<Rightarrow> bool" where
  "exportable opts (Qonfig c nm vs r nv) =
     ((valid_check opts \<longrightarrow> is_valid (classes opts) (Qonfig c nm vs r nv))
      \<and> distinct (raw_names opts (Qonfig c nm vs r nv))
      \<and> (\<forall>(k, v) \<in> set vs.
            \<not> excluded opts k \<longrightarrow>
              (case v of
                 VNode q \<Rightarrow> exportable opts q
               | VList xs \<Rightarrow>
                   list_all is_node xs \<longrightarrow>
                     (\<forall>x \<in> set xs. case x of VNode q \<Rightarrow> exportable opts q | _ \<Rightarrow> True)
               | _ \<Rightarrow> True)))"

text \<open>The labels when the patterns are matched only once, against the labels of the whole
  export written without exclusions.\<close>

definition claimed_names :: "'i export_options \<Rightarrow> qnode \<Rightarrow> string list" where
  "claimed_names opts self =
     filter (\<lambda>n. \<not> excluded opts n) (exported_names (opts\<lparr>excluded_keys := []\<rparr>) self)"

text \<open>The contribution of a key as \<^verbatim>\<open>to_pd_series\<close> computes it, and the statement that the
  export of a node succeeds with the labels above.\<close>

definition contribution_of :: "'i export_options \<Rightarrow> key \<Rightarrow> val \<Rightarrow> contribution" where
  "contribution_of opts k v =
     (if excluded opts k then Skip
      else (case v of
              VNode q \<Rightarrow> Sub (pd_series opts q)
            | VList xs \<Rightarrow>
                if list_all is_node xs
                then SubList (map (\<lambda>x. case x of VNode q \<Rightarrow> pd_series opts q | _ \<Rightarrow> Inr []) xs)
                else Leaf v
            | VDict d \<Rightarrow> if d = [] then SubList [] else Leaf v
            | VStr s \<Rightarrow> if s = [] then SubList [] else Leaf v
            | _ \<Rightarrow> Leaf v))"

definition exports_as :: "'i export_options \<Rightarrow> qnode \<Rightarrow> bool" where
  "exports_as opts q \<longleftrightarrow> (\<exists>s. pd_series opts q = Inr s \<and> map fst s = exported_names opts q)"

section \<open>Example configurations\<close>

text \<open>The classes of \<^verbatim>\<open>tests/qonfig/test_qonfig.py\<close> and the nodes that their
  constructors build. The factory of each class is shown by the node it is handed.\<close>

definition simple_node :: qnode where
  "simple_node =
     Qonfig ''simple_class_aware'' ''test_qonfig.simple_class_aware''
       [(''key1'', VCalcFloat 1), (''key2'', VCalcComplex 0 1)] True False"

definition no_propagation_node :: "val \<Rightarrow> qnode" where
  "no_propagation_node v =
     Qonfig ''no_propagation_class_aware'' ''test_qonfig.no_propagation_class_aware''
       [(''key1'', v), (''key2'', VCalcComplex 0 1)] True True"

definition class_aware_node :: qnode where
  "class_aware_node =
     Qonfig ''class_aware'' ''test_qonfig.class_aware''
       [(''super_key1'',
           VNode (Qonfig ''simple_class_aware'' ''test_qonfig.simple_class_aware''
                    [(''key1'', VCalcFloat 1), (''key2'', VEmpty)] True False)),
        (''key2'', VEmpty),
        (''key3'', VStr ''test'')] True False"

definition super_key1_is_3 :: "qnode \<Rightarrow> bool" where
  "super_key1_is_3 x =
     (case getitem x ''super_key1'' of
        Inr (VNode s) \<Rightarrow> getitem s ''key1'' = Inr (VInt 3)
      | _ \<Rightarrow> False)"

text \<open>The node of \<^verbatim>\<open>test_no_propagation\<close>: \<^verbatim>\<open>super_key1\<close> holds a node of the class
  that never receives values.\<close>

definition class_aware_no_propagation :: qnode where
  "class_aware_no_propagation =
     Qonfig ''class_aware'' ''test_qonfig.class_aware''
       [(''super_key1'', VNode (no_propagation_node (VCalcFloat 1))),
        (''key2'', VEmpty),
        (''key3'', VStr ''test'')] True False"



text \<open>The classes of the tests inherit from \<^verbatim>\<open>object\<close> only.\<close>

definition test_issubclass :: "class_ref \<Rightarrow> class_ref \<Rightarrow> bool" where
  "test_issubclass c T \<longleftrightarrow> c = T \<or> T = ''object''"

text \<open>A node three levels deep, as the constructor builds it for a class whose defaults
  are \<^verbatim>\<open>Qonfig(simple_class_aware)\<close> under \<^verbatim>\<open>first\<close> and \<^verbatim>\<open>Qonfig(class_aware)\<close> under
  \<^verbatim>\<open>middle\<close>.\<close>

definition outer_node :: qnode where
  "outer_node =
     Qonfig ''outer_class_aware'' ''test_qonfig.outer_class_aware''
       [(''first'', VNode simple_node),
        (''middle'', VNode class_aware_node)] True False"

text \<open>A class that never receives values and declares a requirement on its only key,
  and the node that its constructor builds.\<close>

definition key1_is_3 :: "qnode \<Rightarrow> bool" where
  "key1_is_3 x \<longleftrightarrow> getitem x ''key1'' = Inr (VInt 3)"

definition required_no_propagation_node :: qnode where
  "required_no_propagation_node =
     Qonfig ''required_no_propagation'' ''test_qonfig.required_no_propagation''
       [(''key1'', VCalcFloat 1)] True True"

definition test_classes :: "qnode class_table" where
  "test_classes c =
     (if c = ''simple_class_aware'' then
        \<lparr>cls_qonfig_name = ''test_qonfig.simple_class_aware'',
         qonfig_defaults_dict =
           Some [(''key1'', ''documentation for key1'', VCalcFloat 1),
                 (''key2'', ''documentation for key2'', VCalcComplex 0 1)],
         cls_requirements = None,
         qonfig_never_receives_values = None,
         from_qonfig = Some (\<lambda>config. config)\<rparr>
      else if c = ''no_propagation_class_aware'' then
        \<lparr>cls_qonfig_name = ''test_qonfig.no_propagation_class_aware'',
         qonfig_defaults_dict =
           Some [(''key1'', ''documentation for key1'', VCalcFloat 1),
                 (''key2'', ''documentation for key2'', VCalcComplex 0 1)],
         cls_requirements = None,
         qonfig_never_receives_values = Some True,
         from_qonfig = Some (\<lambda>config. config)\<rparr>
      else if c = ''required_no_propagation'' then
        \<lparr>cls_qonfig_name = ''test_qonfig.required_no_propagation'',
         qonfig_defaults_dict =
           Some [(''key1'', ''documentation for key1'', VCalcFloat 1)],
         cls_requirements = Some [(''key1'', key1_is_3, ''It is required that key1 is 3'')],
         qonfig_never_receives_values = Some True,
         from_qonfig = Some (\<lambda>config. config)\<rparr>
      else if c = ''class_aware'' then
        \<lparr>cls_qonfig_name = ''test_qonfig.class_aware'',
         qonfig_defaults_dict =
           Some [(''super_key1'', ''documentation for simple class aware'', VNode simple_node),
                 (''key2'', ''documentation for key2'', VEmpty),
                 (''key3'', ''documentation for key3'', VStr ''test'')],
         cls_requirements =
           Some [(''super_key1'', super_key1_is_3, ''It is required that super_key1[key1] is 3 '')],
         qonfig_never_receives_values = None,
         from_qonfig = Some (\<lambda>config. config)\<rparr>
      else
        \<lparr>cls_qonfig_name = c,
         qonfig_defaults_dict = None,
         cls_requirements = None,
         qonfig_never_receives_values = None,
         from_qonfig = None\<rparr>)"

text \<open>A pattern without metacharacters matches the whole of a name exactly when the two
  are equal. The node below is a tree of two levels: a list of two nodes of
  \<^verbatim>\<open>simple_class_aware\<close> under \<^verbatim>\<open>key\<close>, and a plain value under \<^verbatim>\<open>key2\<close>.\<close>

definition literal_fullmatch :: "string \<Rightarrow> string \<Rightarrow> bool" where
  "literal_fullmatch pattern name \<longleftrightarrow> pattern = name"

definition two_level_node :: qnode where
  "two_level_node =
     Qonfig ''list_class_aware'' ''test_qonfig.list_class_aware''
       [(''key'', VList [VNode simple_node, VNode simple_node]),
        (''key2'', VInt 2)] True False"

section \<open>Completeness\<close>

lemma no_nodes_inspected: "\<not> list_ex is_node xs \<Longrightarrow> inspected_elems xs = []"
  by (induction xs) (auto elim: is_node.elims)

lemma complete_inspected:
  "is_complete q \<longleftrightarrow> VEmpty \<notin> set (inspected_values q)"
  "complete_items vs \<longleftrightarrow> VEmpty \<notin> set (inspected_items vs)"
  "complete_entry v \<longleftrightarrow> v \<noteq> VEmpty \<and> VEmpty \<notin> set (inspected_entry v)"
  "complete_elems xs \<longleftrightarrow> VEmpty \<notin> set (inspected_elems xs)"
  by (induction q and vs and v and xs
      rule: is_complete_complete_items_complete_entry_complete_elems.induct)
     (auto simp: no_nodes_inspected)

text \<open>
  Claim C2, as amended. A node is complete exactly when no declared value equal to
  \<open>VEmpty\<close> is found by expanding nested nodes and the node elements of sequences
  without entering a node flagged \<^verbatim>\<open>_never_receives_values\<close>: such a node is
  reported complete and its values are not looked at.
\<close>

theorem C2_is_complete_inspected:
  "is_complete n \<longleftrightarrow> VEmpty \<notin> set (inspected_values n)"
  by (rule complete_inspected(1))

theorem C2_is_complete_inspected_witness:
  "\<not> is_complete class_aware_node \<and> VEmpty \<in> set (inspected_values class_aware_node)"
  using C2_is_complete_inspected [of class_aware_node] by (simp add: class_aware_node_def)

text \<open>The claim as it is stated fails on a node of the class of the tests that never
  receives values, with \<^verbatim>\<open>key1\<close> unset: the node is complete although \<open>VEmpty\<close> is
  one of its declared values.\<close>

theorem C2_counterexample:
  "\<not> (is_complete (no_propagation_node VEmpty)
        \<longleftrightarrow> VEmpty \<notin> set (reachable_values (no_propagation_node VEmpty)))"
  by (simp add: no_propagation_node_def)

section \<open>Requirements\<close>

lemma violated_own_other:
  "k \<notin> fst ` set rs \<Longrightarrow> map_of (violated_own rs self acc) k = map_of acc k"
  by (induction rs self acc rule: violated_own.induct) (auto simp: update_conv')

lemma violated_own_hit:
  "(k, p, d) \<in> set rs \<Longrightarrow> distinct (map fst rs) \<Longrightarrow> \<not> p self
   \<Longrightarrow> map_of (violated_own rs self acc) k = Some (VStr d)"
proof (induction rs self acc rule: violated_own.induct)
  case (1 self acc)
  then show ?case by simp
next
  case (2 k' p' d' rest self acc)
  show ?case
  proof (cases "(k, p, d) = (k', p', d')")
    case True
    with 2 have "k \<notin> fst ` set rest" by auto
    with True 2 show ?thesis by (simp add: violated_own_other update_conv')
  next
    case False
    with 2 show ?thesis by auto
  qed
qed

lemma requirements_hold_all:
  "requirements_hold rs self \<longleftrightarrow> (\<forall>(k, p, d) \<in> set rs. p self)"
  by (induction rs self rule: requirements_hold.induct) auto

text \<open>
  Claim C7, as amended. For a node that is not flagged \<^verbatim>\<open>_never_receives_values\<close>
  and carries the requirement \<open>(k, p, d)\<close> (the requirement keys being those of a
  dictionary, hence distinct): when \<open>p\<close> is false on the node, the node is not valid
  and \<^verbatim>\<open>violated_requirements\<close> maps \<open>k\<close> to the documentation \<open>d\<close>.
\<close>

theorem C7_requirements:
  assumes "\<not> never_receives_values self"
    and "(k, p, d) \<in> set (requirements_of ct self)"
    and "distinct (map fst (requirements_of ct self))"
    and "\<not> p self"
  shows "\<not> is_valid ct self
         \<and> map_of (violated_requirements ct self) k = Some (VStr d)"
proof (cases self)
  case (Qonfig c nm vs r nv)
  with assms have nv: "\<not> nv" by simp
  have "\<not> requirements_hold (requirements_of ct self) self"
    using assms(2,4) by (force simp: requirements_hold_all)
  then have "\<not> meets_requirements ct self"
    using Qonfig nv by simp
  moreover have "map_of (violated_requirements ct self) k = Some (VStr d)"
    using Qonfig nv violated_own_hit [OF assms(2,3,4)] by simp
  ultimately show ?thesis by (simp add: is_valid_def)
qed

lemma class_aware_requirements:
  "requirements_of test_classes class_aware_node =
     [(''super_key1'', super_key1_is_3, ''It is required that super_key1[key1] is 3 '')]"
  by (simp add: requirements_of_def test_classes_def class_aware_node_def)

theorem C7_requirements_witness:
  "\<not> never_receives_values class_aware_node
   \<and> (''super_key1'', super_key1_is_3, ''It is required that super_key1[key1] is 3 '')
       \<in> set (requirements_of test_classes class_aware_node)
   \<and> distinct (map fst (requirements_of test_classes class_aware_node))
   \<and> \<not> super_key1_is_3 class_aware_node
   \<and> \<not> is_valid test_classes class_aware_node
   \<and> map_of (violated_requirements test_classes class_aware_node) ''super_key1''
       = Some (VStr ''It is required that super_key1[key1] is 3 '')"
proof -
  have a: "\<not> never_receives_values class_aware_node"
    by (simp add: class_aware_node_def)
  have b: "(''super_key1'', super_key1_is_3, ''It is required that super_key1[key1] is 3 '')
             \<in> set (requirements_of test_classes class_aware_node)"
    by (simp add: class_aware_requirements)
  have c: "distinct (map fst (requirements_of test_classes class_aware_node))"
    by (simp add: class_aware_requirements)
  have d: "\<not> super_key1_is_3 class_aware_node"
    by (simp add: super_key1_is_3_def class_aware_node_def getitem_def reserved_def)
  show ?thesis using a b c d C7_requirements [OF a b c d] by simp
qed

text \<open>The claim as it is stated fails on a node whose class never receives values: the
  requirement on \<^verbatim>\<open>key1\<close> is false on the node, yet the node is valid and
  \<^verbatim>\<open>violated_requirements\<close> is empty.\<close>

theorem C7_counterexample:
  "(''key1'', key1_is_3, ''It is required that key1 is 3'')
       \<in> set (requirements_of test_classes required_no_propagation_node)
   \<and> \<not> key1_is_3 required_no_propagation_node
   \<and> is_valid test_classes required_no_propagation_node
   \<and> map_of (violated_requirements test_classes required_no_propagation_node) ''key1'' = None"
  by (simp add: requirements_of_def test_classes_def required_no_propagation_node_def
        key1_is_3_def getitem_def reserved_def is_valid_def)

section \<open>Missing values\<close>

lemma dict_of_fold:
  "map_of (fold (\<lambda>(k, v). AList.update k v) ws acc) = map_of acc ++ map_of (rev ws)"
  by (induction ws arbitrary: acc)
     (auto simp: update_conv' fun_eq_iff map_add_def split: option.splits)

lemma map_of_dict_of: "map_of (dict_of ws) = map_of (rev ws)"
  by (simp add: dict_of_def dict_of_fold)

lemma missing_items_plain:
  "\<forall>v \<in> snd ` set vs. \<not> seq_with_nodes v \<Longrightarrow>
   missing_items vs =
     concat (map (\<lambda>(k, v). case missing_of k v of None \<Rightarrow> [] | Some w \<Rightarrow> [(k, w)]) vs)"
proof (induction vs)
  case Nil
  then show ?case by simp
next
  case (Cons a vs)
  obtain k v where a: "a = (k, v)" by (cases a)
  with Cons show ?case by (cases v) (auto simp: entry_name_def missing_of_def)
qed

lemma map_of_concat_single:
  "distinct (map fst vs) \<Longrightarrow>
   map_of (rev (concat (map (\<lambda>(k, v). case g k v of None \<Rightarrow> [] | Some w \<Rightarrow> [(k, w)]) vs))) k
     = (case map_of vs k of None \<Rightarrow> None | Some v \<Rightarrow> g k v)"
proof (induction vs)
  case Nil
  then show ?case by simp
next
  case (Cons a vs)
  obtain k' v' where a: "a = (k', v')" by (cases a)
  have notin: "k' \<notin> fst ` set vs" using Cons.prems a by auto
  show ?case
  proof (cases "k = k'")
    case True
    then have "map_of vs k = None" using notin by (simp add: map_of_eq_None_iff)
    then have "map_of (rev (concat (map (\<lambda>(k, v). case g k v of None \<Rightarrow> [] | Some w \<Rightarrow> [(k, w)]) vs))) k = None"
      using Cons by simp
    with True a show ?thesis by (auto simp: map_add_def split: option.splits)
  next
    case False
    with Cons a show ?thesis by (auto simp: map_add_def split: option.splits)
  qed
qed

lemma missing_values_plain:
  assumes "\<not> never_receives_values n" and "distinct (keys n)"
    and "\<forall>v \<in> snd ` set (qvalues n). \<not> seq_with_nodes v"
  shows "map_of (missing_values n) k =
           (case map_of (qvalues n) k of None \<Rightarrow> None | Some v \<Rightarrow> missing_of k v)"
proof (cases n)
  case (Qonfig c nm vs r nv)
  with assms show ?thesis
    by (simp add: map_of_dict_of missing_items_plain keys_def map_of_concat_single)
qed

lemma propagate_items_flat:
  "\<forall>v \<in> snd ` set vs. \<not> is_node v \<and> \<not> seq_with_nodes v \<Longrightarrow>
   propagate_items prop k v vs = Some vs"
proof (induction vs)
  case Nil
  then show ?case by simp
next
  case (Cons a vs)
  obtain k' x where a: "a = (k', x)" by (cases a)
  with Cons show ?case by (cases x) auto
qed

lemma missing_items_unset_one:
  "k \<in> fst ` set vs \<Longrightarrow> distinct (map fst vs) \<Longrightarrow>
   \<forall>(k', v) \<in> set vs. k' \<noteq> k \<longrightarrow> plain v \<Longrightarrow>
   missing_items (AList.update k VEmpty vs) = [(k, VStr k)]"
proof (induction vs)
  case Nil
  then show ?case by simp
next
  case (Cons a vs)
  obtain k' x where a: "a = (k', x)" by (cases a)
  show ?case
  proof (cases "k' = k")
    case True
    with Cons.prems a have "\<forall>v \<in> snd ` set vs. \<not> seq_with_nodes v"
      and "\<forall>(k', v) \<in> set vs. missing_of k' v = None"
      by (force simp: plain_def missing_of_def split: val.splits)+
    then have "missing_items vs = []"
      by (simp add: missing_items_plain) (auto split: option.splits)
    with True a show ?thesis by (simp add: entry_name_def)
  next
    case False
    with Cons.prems a have "plain x" by auto
    then have "missing_entry x = []" by (cases x) (auto simp: plain_def)
    with False a Cons show ?thesis by (auto simp: named_def)
  qed
qed

lemma complete_items_no_empty: "complete_items vs \<Longrightarrow> (k, VEmpty) \<notin> set vs"
  by (induction vs) (auto split: if_splits)

lemma update_mem: "k \<in> fst ` set vs \<Longrightarrow> (k, v) \<in> set (AList.update k v vs)"
  by (induction vs) auto

lemma set_update_cases:
  assumes d: "distinct (map fst vs)" and m: "(k', v') \<in> set (AList.update k v vs)"
  shows "(k', v') = (k, v) \<or> ((k', v') \<in> set vs \<and> k' \<noteq> k)"
proof -
  have "distinct (map fst (AList.update k v vs))" using d by (rule distinct_update)
  then have "map_of (AList.update k v vs) k' = Some v'" using m by simp
  then have "((map_of vs)(k \<mapsto> v)) k' = Some v'" by (simp add: update_conv')
  then show ?thesis by (auto split: if_splits dest: map_of_SomeD)
qed

lemma is_node_update_flat:
  assumes "\<forall>(k', v) \<in> set vs. k' \<noteq> k \<longrightarrow> plain v" and d: "distinct (map fst vs)"
  shows "\<forall>v \<in> snd ` set (AList.update k VEmpty vs). \<not> is_node v \<and> \<not> seq_with_nodes v"
proof
  fix v assume "v \<in> snd ` set (AList.update k VEmpty vs)"
  then obtain k' where "(k', v) \<in> set (AList.update k VEmpty vs)" by auto
  then have "(k', v) = (k, VEmpty) \<or> ((k', v) \<in> set vs \<and> k' \<noteq> k)"
    using set_update_cases [OF d] by blast
  then show "\<not> is_node v \<and> \<not> seq_with_nodes v"
    using assms by (auto simp: plain_def)
qed

text \<open>
  Claim C8, as amended. For a node that is not flagged \<^verbatim>\<open>_never_receives_values\<close>:
  when no declared value is a sequence holding nodes, \<^verbatim>\<open>missing_values\<close> has an entry
  for a key exactly when the value under the key is unset (the entry is the key) or an
  incomplete nested node (the entry is that node's \<^verbatim>\<open>missing_values\<close>); and when
  \<^verbatim>\<open>key\<close> is assigned the unset value on a node whose other values are set and
  hold no node, \<^verbatim>\<open>missing_values\<close> is \<^verbatim>\<open>{key: key}\<close> and the node is incomplete.
\<close>

theorem C8_missing_values:
  assumes "\<not> never_receives_values n" and "distinct (keys n)"
  shows "((\<forall>v \<in> snd ` set (qvalues n). \<not> seq_with_nodes v) \<longrightarrow>
            map_of (missing_values n) k =
              (case map_of (qvalues n) k of None \<Rightarrow> None | Some v \<Rightarrow> missing_of k v))
         \<and> (k \<in> set (keys n) \<and> (\<forall>(k', v) \<in> set (qvalues n). k' \<noteq> k \<longrightarrow> plain v) \<longrightarrow>
              (\<exists>n'. setitem (Suc f) k VEmpty n = Some n'
                    \<and> missing_values n' = [(k, VStr k)] \<and> \<not> is_complete n'))"
proof (intro conjI impI)
  assume "\<forall>v \<in> snd ` set (qvalues n). \<not> seq_with_nodes v"
  with assms show "map_of (missing_values n) k =
      (case map_of (qvalues n) k of None \<Rightarrow> None | Some v \<Rightarrow> missing_of k v)"
    by (rule missing_values_plain)
next
  assume h: "k \<in> set (keys n) \<and> (\<forall>(k', v) \<in> set (qvalues n). k' \<noteq> k \<longrightarrow> plain v)"
  obtain c nm vs r nv where n: "n = Qonfig c nm vs r nv" by (cases n)
  let ?vs' = "AList.update k VEmpty vs"
  let ?n' = "Qonfig c nm ?vs' r nv"
  have flat: "\<forall>v \<in> snd ` set ?vs'. \<not> is_node v \<and> \<not> seq_with_nodes v"
    using h n assms by (intro is_node_update_flat) (simp_all add: keys_def)
  have "propagate_value (Suc f) k VEmpty ?n' = Some ?n'"
    using propagate_items_flat [OF flat] by (simp add: set_values_def)
  then have s: "setitem (Suc f) k VEmpty n = Some ?n'"
    using h n by (simp add: setitem_def setitem_with_def set_values_def Let_def)
  have kin: "k \<in> fst ` set vs" using h n by (simp add: keys_def)
  have m: "missing_values ?n' = [(k, VStr k)]"
    using missing_items_unset_one [OF kin] assms h n
    by (simp add: keys_def dict_of_def)
  have "(k, VEmpty) \<in> set ?vs'" using kin by (rule update_mem)
  then have "\<not> complete_items ?vs'" using complete_items_no_empty by blast
  then have "\<not> is_complete ?n'" using assms n by simp
  with s m show "\<exists>n'. setitem (Suc f) k VEmpty n = Some n'
                    \<and> missing_values n' = [(k, VStr k)] \<and> \<not> is_complete n'" by blast
qed

theorem C8_missing_values_witness:
  "\<not> never_receives_values simple_node \<and> distinct (keys simple_node)
   \<and> map_of (missing_values simple_node) ''key1'' = None
   \<and> ''key1'' \<in> set (keys simple_node)
   \<and> (\<exists>n'. setitem (Suc 0) ''key1'' VEmpty simple_node = Some n'
           \<and> missing_values n' = [(''key1'', VStr ''key1'')] \<and> \<not> is_complete n')"
proof -
  have a: "\<not> never_receives_values simple_node" by (simp add: simple_node_def)
  have b: "distinct (keys simple_node)" by (simp add: simple_node_def keys_def)
  have c: "\<forall>v \<in> snd ` set (qvalues simple_node). \<not> seq_with_nodes v"
    by (simp add: simple_node_def)
  have d: "''key1'' \<in> set (keys simple_node)" by (simp add: simple_node_def keys_def)
  have e: "\<forall>(k', v) \<in> set (qvalues simple_node). k' \<noteq> ''key1'' \<longrightarrow> plain v"
    by (simp add: simple_node_def plain_def)
  have m: "map_of (qvalues simple_node) ''key1'' = Some (VCalcFloat 1)"
    by (simp add: simple_node_def)
  show ?thesis
    using a b c d e m C8_missing_values [OF a b, of "''key1''" 0]
    by (simp add: missing_of_def)
qed

text \<open>The claim as it is stated fails on the node of the class of the tests that never
  receives values: after \<^verbatim>\<open>key1\<close> is assigned the unset value, \<^verbatim>\<open>missing_values\<close> is
  empty and the node is complete.\<close>

theorem C8_counterexample:
  "setitem (Suc 0) ''key1'' VEmpty (no_propagation_node (VCalcFloat 1))
     = Some (no_propagation_node VEmpty)
   \<and> missing_values (no_propagation_node VEmpty) = []
   \<and> is_complete (no_propagation_node VEmpty)"
  by (simp add: setitem_def setitem_with_def no_propagation_node_def keys_def set_values_def)

section \<open>Instantiation of a node\<close>



section \<open>Propagation\<close>

subsection \<open>Copies and values free of a key\<close>

lemma is_node_copy_val [simp]: "is_node (copy_val x) = is_node x"
  by (cases x) auto

lemma list_ex_copy_elems [simp]: "list_ex is_node (copy_elems xs) = list_ex is_node xs"
  by (induction xs) auto

lemma copy_idem:
  "copy_val (copy_val v) = copy_val v"
  "copy_node (copy_node q) = copy_node q"
  "copy_items nm (copy_items nm vs) = copy_items nm vs"
  "copy_item nm k (copy_item nm k v) = copy_item nm k v"
  "copy_elems (copy_elems xs) = copy_elems xs"
  by (induction v and q and nm vs and nm k v and xs
      rule: copy_val_copy_node_copy_items_copy_item_copy_elems.induct) auto

lemma keys_copy_items [simp]: "map fst (copy_items nm vs) = map fst vs"
  by (induction vs) auto

lemma kfree_copy:
  "(kfree_val k v \<longrightarrow> kfree_val k (copy_val v)) \<and> (kfree_elem k v \<longrightarrow> kfree_elem k (copy_val v))"
  "kfree_node k q \<longrightarrow> kfree_node k (copy_node q)"
  "kfree_items k vs \<longrightarrow> kfree_items k (copy_items nm vs)"
  "kfree_val k v \<longrightarrow> kfree_val k (copy_item nm k' v)"
  "kfree_elems k xs \<longrightarrow> kfree_elems k (copy_elems xs)"
proof (induction v and q and nm vs and nm k' v and xs
      rule: copy_val_copy_node_copy_items_copy_item_copy_elems.induct)
  case (12 c nm vs r nv)
  have "fst ` set (copy_items nm vs) = fst ` set vs"
    using keys_copy_items [of nm vs] by (metis set_map)
  with 12 show ?case by simp
qed auto

lemma hentry_copy:
  "hentry (copy_val v) \<le> hentry v \<and> helem (copy_val v) \<le> helem v"
  "hnode (copy_node q) \<le> hnode q"
  "hitems (copy_items nm vs) \<le> hitems vs"
  "hentry (copy_item nm k' v) \<le> hentry v"
  "helems (copy_elems xs) \<le> helems xs"
  by (induction v and q and nm vs and nm k' v and xs
      rule: copy_val_copy_node_copy_items_copy_item_copy_elems.induct) auto

lemma keys_broadcast_items [simp]: "map fst (broadcast_items k w vs) = map fst vs"
  by (induction vs) auto

lemma keys_broadcast_node [simp]: "keys (broadcast_node k w q) = keys q"
  by (cases q) (simp add: keys_def)

lemma kfree_node_iff: "kfree_node k q \<longleftrightarrow> k \<notin> set (keys q) \<and> kfree_items k (qvalues q)"
  by (cases q) (simp add: keys_def)

lemma broadcast_kfree:
  "kfree_items k (qvalues q) \<longrightarrow> broadcast_node k w q = q"
  "kfree_items k vs \<longrightarrow> broadcast_items k w vs = vs"
  "kfree_val k x \<longrightarrow> broadcast_entry k w x = x"
  "kfree_elems k xs \<longrightarrow> broadcast_elems k w xs = xs"
  "kfree_elem k x \<longrightarrow> broadcast_elem k w x = x"
  by (induction k w q and k w vs and k w x and k w xs and k w x
      rule: broadcast_node_broadcast_items_broadcast_entry_broadcast_elems_broadcast_elem.induct)
     (auto simp: store_def kfree_node_iff)

lemma broadcast_items_update:
  "broadcast_items k w (AList.update k' x vs)
     = AList.update k' (broadcast_entry k w x) (broadcast_items k w vs)"
  by (induction vs) auto

lemma receives_values_set_values [simp]:
  "receives_values (set_values q vs) = receives_values q"
  by (simp add: receives_values_def set_values_def)

lemma receives_values_store [simp]: "receives_values (store k w q) = receives_values q"
  by (simp add: store_def)

lemma receives_values_broadcast [simp]: "receives_values (broadcast_node k w q) = receives_values q"
  by (cases q) (simp add: receives_values_def)

lemma keys_store [simp]: "keys (store k w q) = keys q"
  by (simp add: store_def keys_def set_values_def update_keys)

lemma qvalues_broadcast: "qvalues (broadcast_node k w q) = broadcast_items k w (qvalues q)"
  by (cases q) simp

lemma broadcast_set_values:
  "broadcast_node k w (set_values q vs) = set_values (broadcast_node k w q) (broadcast_items k w vs)"
  by (cases q) (simp add: set_values_def)

lemma broadcast_store:
  "kfree_val k w \<Longrightarrow> broadcast_node k w (store k' w q) = store k' w (broadcast_node k w q)"
  by (simp add: store_def broadcast_set_values broadcast_items_update broadcast_kfree
        qvalues_broadcast)

lemma store_store [simp]: "store k w (store k w q) = store k w q"
  by (cases q) (simp add: store_def set_values_def keys_def update_keys)

lemma broadcast_idem:
  "kfree_val k w \<longrightarrow> broadcast_node k w (broadcast_node k w q) = broadcast_node k w q"
  "kfree_val k w \<longrightarrow> broadcast_items k w (broadcast_items k w vs) = broadcast_items k w vs"
  "kfree_val k w \<longrightarrow> broadcast_entry k w (broadcast_entry k w x) = broadcast_entry k w x"
  "kfree_val k w \<longrightarrow> broadcast_elems k w (broadcast_elems k w xs) = broadcast_elems k w xs"
  "kfree_val k w \<longrightarrow> broadcast_elem k w (broadcast_elem k w x) = broadcast_elem k w x"
  by (induction k w q and k w vs and k w x and k w xs and k w x
      rule: broadcast_node_broadcast_items_broadcast_entry_broadcast_elems_broadcast_elem.induct)
     (auto simp: broadcast_store)

lemma refines_uptoD:
  "refines_upto prop k w f \<Longrightarrow> kfree_val k v \<Longrightarrow> copy_val v = w
   \<Longrightarrow> hnode (broadcast_node k w N) \<le> f \<Longrightarrow> prop k v N = Some (broadcast_node k w N)"
  by (simp add: refines_upto_def)

lemma store_eq_set_values:
  "k \<in> set (keys c) \<Longrightarrow> set_values c (AList.update k w (qvalues c)) = store k w c"
  by (simp add: store_def)

lemma store_not_declared: "k \<notin> set (keys c) \<Longrightarrow> store k w c = c"
  by (simp add: store_def)

lemma setitem_with_refines:
  assumes H: "refines_upto prop k w f"
    and kf: "kfree_val k v" and cw: "copy_val v = w"
    and dec: "k \<in> set (keys c)" and rv: "receives_values c"
    and h: "hnode (store k w (broadcast_node k w c)) \<le> f"
  shows "setitem_with prop k v c = Some (store k w (broadcast_node k w c))"
proof -
  have kw: "kfree_val k w" using kf cw kfree_copy(1) [of k v] by auto
  have cww: "copy_val w = w" using cw copy_idem(1) [of v] by simp
  have b: "broadcast_node k w (store k w c) = store k w (broadcast_node k w c)"
    using kw by (rule broadcast_store)
  have "prop k w (store k w c) = Some (broadcast_node k w (store k w c))"
    using H kw cww by (rule refines_uptoD) (simp add: b h)
  then show ?thesis
    using dec rv cw b
    by (simp add: setitem_with_def store_eq_set_values receives_values_def Let_def)
qed

lemma written_child_refines:
  assumes H: "refines_upto prop k w f"
    and kf: "kfree_val k v" and cw: "copy_val v = w"
    and rv: "receives_values c"
    and h: "hnode (store k w (broadcast_node k w c)) \<le> f"
  shows "do {
           c1 \<leftarrow> (if k \<in> set (keys c) then setitem_with prop k v c else Some c);
           c2 \<leftarrow> prop k v c1;
           Some (VNode c2)
         } = Some (VNode (store k w (broadcast_node k w c)))"
proof -
  have kw: "kfree_val k w" using kf cw kfree_copy(1) [of k v] by auto
  let ?r = "store k w (broadcast_node k w c)"
  have idem: "broadcast_node k w ?r = ?r"
    using kw by (simp add: broadcast_store broadcast_idem)
  have again: "prop k v ?r = Some ?r"
    using refines_uptoD [OF H kf cw, of ?r] h idem by simp
  show ?thesis
  proof (cases "k \<in> set (keys c)")
    case True
    then show ?thesis
      using setitem_with_refines [OF H kf cw True rv h] again by simp
  next
    case False
    then have e: "?r = broadcast_node k w c" by (simp add: store_not_declared)
    have "prop k v c = Some (broadcast_node k w c)"
      using refines_uptoD [OF H kf cw, of c] h e by simp
    with False e show ?thesis by simp
  qed
qed

lemma elems_refines:
  assumes H: "refines_upto prop k w f"
    and kf: "kfree_val k v" and cw: "copy_val v = w"
  shows "helems (broadcast_elems k w xs) \<le> f
         \<Longrightarrow> propagate_elems prop k v xs = Some (broadcast_elems k w xs)"
proof (induction xs)
  case Nil
  then show ?case by simp
next
  case (Cons x xs)
  then have t: "propagate_elems prop k v xs = Some (broadcast_elems k w xs)" by simp
  show ?case
  proof (cases x)
    case (VNode e)
    show ?thesis
    proof (cases "receives_values e")
      case True
      with Cons.prems VNode have "hnode (store k w (broadcast_node k w e)) \<le> f" by simp
      from written_child_refines [OF H kf cw True this] True VNode t
      show ?thesis by (auto split: if_splits)
    next
      case False
      with Cons.prems VNode have "hnode (broadcast_node k w e) \<le> f" by simp
      then have "prop k v e = Some (broadcast_node k w e)"
        using refines_uptoD [OF H kf cw] by simp
      with False VNode t show ?thesis by simp
    qed
  qed (use t in auto)
qed

lemma entry_refines:
  assumes H: "refines_upto prop k w f"
    and kf: "kfree_val k v" and cw: "copy_val v = w"
    and h: "hentry (broadcast_entry k w x) \<le> f"
  shows "propagate_entry prop k v x = Some (broadcast_entry k w x)"
proof (cases x)
  case (VNode c)
  show ?thesis
  proof (cases "receives_values c")
    case True
    with h VNode have "hnode (store k w (broadcast_node k w c)) \<le> f" by simp
    from written_child_refines [OF H kf cw True this] True VNode
    show ?thesis by simp
  next
    case False
    with VNode show ?thesis by simp
  qed
next
  case (VList xs)
  show ?thesis
  proof (cases "list_ex is_node xs")
    case True
    with h VList have "helems (broadcast_elems k w xs) \<le> f" by simp
    from elems_refines [OF H kf cw this] True VList show ?thesis by simp
  next
    case False
    with VList show ?thesis by simp
  qed
qed auto

lemma items_refines:
  assumes H: "refines_upto prop k w f"
    and kf: "kfree_val k v" and cw: "copy_val v = w"
  shows "hitems (broadcast_items k w vs) \<le> f
         \<Longrightarrow> propagate_items prop k v vs = Some (broadcast_items k w vs)"
proof (induction vs)
  case Nil
  then show ?case by simp
next
  case (Cons a vs)
  obtain k' x where a: "a = (k', x)" by (cases a)
  from Cons a have t: "propagate_items prop k v vs = Some (broadcast_items k w vs)" by simp
  from Cons.prems a have "hentry (broadcast_entry k w x) \<le> f" by simp
  from entry_refines [OF H kf cw this] t a show ?case by simp
qed

lemma propagate_value_refines: "refines_upto (propagate_value f) k w f"
proof (induction f)
  case 0
  have "0 < hnode q" for q by (cases q) simp
  then show ?case by (auto simp: refines_upto_def)
next
  case (Suc f)
  show ?case
    unfolding refines_upto_def
  proof (intro allI impI)
    fix N v
    assume kf: "kfree_val k v" and cw: "copy_val v = w"
      and h: "hnode (broadcast_node k w N) \<le> Suc f"
    obtain c nm vs r nv where N: "N = Qonfig c nm vs r nv" by (cases N)
    from h N have "hitems (broadcast_items k w vs) \<le> f" by simp
    from items_refines [OF Suc kf cw this] N
    show "propagate_value (Suc f) k v N = Some (broadcast_node k w N)"
      by (simp add: set_values_def)
  qed
qed

subsection \<open>Fuel\<close>

lemma hnode_pos: "0 < hnode q"
  by (cases q) simp

lemma hitems_update: "hitems (AList.update k w vs) \<le> max (hitems vs) (hentry w)"
  by (induction vs) auto

lemma hnode_store: "hnode (store k w q) \<le> max (hnode q) (Suc (hentry w))"
  using hitems_update [of k w "qvalues q"]
  by (cases q) (auto simp: store_def set_values_def)

lemma hnode_broadcast:
  "hnode (broadcast_node k w q) \<le> hnode q + hentry w"
  "hitems (broadcast_items k w vs) \<le> hitems vs + hentry w"
  "hentry (broadcast_entry k w x) \<le> hentry x + hentry w"
  "helems (broadcast_elems k w xs) \<le> helems xs + hentry w"
  "helem (broadcast_elem k w x) \<le> helem x + hentry w"
proof (induction k w q and k w vs and k w x and k w xs and k w x
      rule: broadcast_node_broadcast_items_broadcast_entry_broadcast_elems_broadcast_elem.induct)
  case (4 k w c)
  show ?case
  proof (cases "receives_values c")
    case True
    have "hnode (store k w (broadcast_node k w c)) \<le> max (hnode (broadcast_node k w c)) (Suc (hentry w))"
      by (rule hnode_store)
    also have "\<dots> \<le> hnode c + hentry w"
      using 4 True hnode_pos [of c] by simp
    finally show ?thesis using True by simp
  qed simp
next
  case (9 k w e)
  show ?case
  proof (cases "receives_values e")
    case True
    have "hnode (store k w (broadcast_node k w e)) \<le> max (hnode (broadcast_node k w e)) (Suc (hentry w))"
      by (rule hnode_store)
    also have "\<dots> \<le> hnode e + hentry w"
      using 9 True hnode_pos [of e] by simp
    finally show ?thesis using True by simp
  next
    case False
    with 9 show ?thesis by simp
  qed
qed auto


lemma hnode_store_broadcast:
  "hnode (store k w (broadcast_node k w P)) \<le> hnode P + hentry w"
proof -
  have "hnode (store k w (broadcast_node k w P)) \<le> max (hnode (broadcast_node k w P)) (Suc (hentry w))"
    by (rule hnode_store)
  also have "\<dots> \<le> hnode P + hentry w"
    using hnode_broadcast(1) [of k w P] hnode_pos [of P] by simp
  finally show ?thesis .
qed

lemma setitem_broadcast:
  assumes fl: "receives_values_flag P" and dec: "k \<in> set (keys P)"
    and kf: "kfree_val k v" and h: "hnode P + hentry v \<le> f"
  shows "setitem f k v P = Some (store k (copy_val v) (broadcast_node k (copy_val v) P))"
proof -
  let ?w = "copy_val v"
  have kw: "kfree_val k ?w" using kf kfree_copy(1) [of k v] by auto
  have cww: "copy_val ?w = ?w" by (rule copy_idem)
  have b: "broadcast_node k ?w (store k ?w P) = store k ?w (broadcast_node k ?w P)"
    using kw by (rule broadcast_store)
  have "hnode (store k ?w (broadcast_node k ?w P)) \<le> hnode P + hentry ?w"
    by (rule hnode_store_broadcast)
  also have "\<dots> \<le> f" using h hentry_copy(1) [of v] by simp
  finally have "hnode (broadcast_node k ?w (store k ?w P)) \<le> f" using b by simp
  then have "propagate_value f k ?w (store k ?w P) = Some (broadcast_node k ?w (store k ?w P))"
    using propagate_value_refines [of f k ?w] kw cww by (simp add: refines_upto_def)
  then show ?thesis
    using fl dec b by (simp add: setitem_def setitem_with_def store_eq_set_values Let_def)
qed

lemma setitem_not_receiving:
  "k \<in> set (keys P) \<Longrightarrow> \<not> receives_values_flag P
   \<Longrightarrow> setitem f k v P = Some (store k (copy_val v) P)"
  by (simp add: setitem_def setitem_with_def store_eq_set_values Let_def)


subsection \<open>What the targets hold\<close>

lemma targets_kfree:
  "kfree_items k (qvalues q) \<longrightarrow> (\<forall>C \<in> set (targets q). k \<notin> set (keys C))"
  "kfree_items k vs \<longrightarrow> (\<forall>C \<in> set (targets_items vs). k \<notin> set (keys C))"
  "kfree_val k x \<longrightarrow> (\<forall>C \<in> set (targets_entry x). k \<notin> set (keys C))"
  "kfree_elems k xs \<longrightarrow> (\<forall>C \<in> set (targets_elems xs). k \<notin> set (keys C))"
  "kfree_elem k x \<longrightarrow> (\<forall>C \<in> set (targets_elem x). k \<notin> set (keys C))"
  by (induction q and vs and x and xs and x
      rule: targets_targets_items_targets_entry_targets_elems_targets_elem.induct)
     (auto simp: kfree_node_iff)

lemma targets_update:
  "set (targets_items (AList.update k w vs)) \<subseteq> set (targets_entry w) \<union> set (targets_items vs)"
  by (induction vs) auto

lemma targets_eq: "targets q = targets_items (qvalues q)"
  by (cases q) simp

lemma targets_store:
  "set (targets (store k w q)) \<subseteq> set (targets_entry w) \<union> set (targets q)"
  using targets_update [of k w "qvalues q"]
  by (auto simp: store_def targets_eq set_values_def)

lemma map_of_store:
  "k \<in> set (keys q) \<Longrightarrow> map_of (qvalues (store k w q)) k = Some w"
  by (simp add: store_def set_values_def update_conv')

lemma targets_store_hold:
  assumes kw: "kfree_val k w"
    and ih: "\<forall>C \<in> set (targets q). k \<in> set (keys C) \<longrightarrow> map_of (qvalues C) k = Some w"
  shows "\<forall>C \<in> set (store k w q # targets (store k w q)).
           k \<in> set (keys C) \<longrightarrow> map_of (qvalues C) k = Some w"
proof
  fix C assume "C \<in> set (store k w q # targets (store k w q))"
  then consider "C = store k w q" | "C \<in> set (targets_entry w)" | "C \<in> set (targets q)"
    using targets_store [of k w q] by auto
  then show "k \<in> set (keys C) \<longrightarrow> map_of (qvalues C) k = Some w"
  proof cases
    case 1
    then show ?thesis by (simp add: map_of_store)
  next
    case 2
    with kw targets_kfree(3) [of k w] show ?thesis by blast
  next
    case 3
    with ih show ?thesis by blast
  qed
qed

lemma targets_elems_no_nodes: "\<not> list_ex is_node xs \<Longrightarrow> targets_elems xs = []"
  by (induction xs) (auto elim: is_node.elims)

lemma targets_broadcast:
  "kfree_val k w \<longrightarrow> (\<forall>C \<in> set (targets (broadcast_node k w q)).
      k \<in> set (keys C) \<longrightarrow> map_of (qvalues C) k = Some w)"
  "kfree_val k w \<longrightarrow> (\<forall>C \<in> set (targets_items (broadcast_items k w vs)).
      k \<in> set (keys C) \<longrightarrow> map_of (qvalues C) k = Some w)"
  "kfree_val k w \<longrightarrow> (\<forall>C \<in> set (targets_entry (broadcast_entry k w x)).
      k \<in> set (keys C) \<longrightarrow> map_of (qvalues C) k = Some w)"
  "kfree_val k w \<longrightarrow> (\<forall>C \<in> set (targets_elems (broadcast_elems k w xs)).
      k \<in> set (keys C) \<longrightarrow> map_of (qvalues C) k = Some w)"
  "kfree_val k w \<longrightarrow> (\<forall>C \<in> set (targets_elem (broadcast_elem k w x)).
      k \<in> set (keys C) \<longrightarrow> map_of (qvalues C) k = Some w)"
proof (induction k w q and k w vs and k w x and k w xs and k w x
      rule: broadcast_node_broadcast_items_broadcast_entry_broadcast_elems_broadcast_elem.induct)
  case (4 k w c)
  show ?case
  proof (cases "receives_values c")
    case True
    with 4 targets_store_hold [of k w "broadcast_node k w c"] show ?thesis by simp
  next
    case False
    then show ?thesis by simp
  qed
next
  case (9 k w e)
  show ?case
  proof (cases "receives_values e")
    case True
    with 9 targets_store_hold [of k w "broadcast_node k w e"] show ?thesis by simp
  next
    case False
    with 9 show ?thesis by simp
  qed
qed (auto simp: targets_elems_no_nodes)

subsection \<open>Propagation from a parent\<close>

lemma get_map_of: "map_of (qvalues C) k = Some w \<Longrightarrow> get C k = Inr w"
  by (simp add: get_def)

lemma targets_after_setitem:
  assumes kf: "kfree_val k v"
  shows "\<forall>C \<in> set (targets (store k (copy_val v) (broadcast_node k (copy_val v) P))).
           k \<in> set (keys C) \<longrightarrow> get C k = Inr (copy_val v)"
proof -
  let ?w = "copy_val v"
  have kw: "kfree_val k ?w" using kf kfree_copy(1) [of k v] by auto
  have "\<forall>C \<in> set (targets (broadcast_node k ?w P)).
          k \<in> set (keys C) \<longrightarrow> map_of (qvalues C) k = Some ?w"
    using targets_broadcast(1) [of k ?w P] kw by simp
  from targets_store_hold [OF kw this] show ?thesis
    by (simp add: get_map_of)
qed


text \<open>
  Claim C4, as amended. Let \<open>P\<close> be a node whose \<^verbatim>\<open>receives_values\<close> is true and that
  declares \<open>k\<close>, and \<open>v\<close> a value in which no node declares \<open>k\<close>. Then \<open>P.set(k, v)\<close>
  returns (with fuel for the levels of \<open>P\<close> and \<open>v\<close>), \<open>P.get(k)\<close> is the copy of \<open>v\<close>
  that was stored, and so is \<open>C.get(k)\<close> for every node \<open>C\<close> that declares \<open>k\<close> and is
  then among the targets of \<open>P\<close>: the receptive nodes reached from \<open>P\<close> through
  receptive children and through elements of sequences, and so on below them.
\<close>

theorem C4_propagation:
  assumes "receives_values P" and "k \<in> set (keys P)"
    and "kfree_val k v" and "hnode P + hentry v \<le> f"
  shows "\<exists>P'. setitem f k v P = Some P'
           \<and> get P' k = Inr (copy_val v)
           \<and> (\<forall>C \<in> set (targets P'). k \<in> set (keys C) \<longrightarrow> get C k = Inr (copy_val v))"
proof -
  let ?P' = "store k (copy_val v) (broadcast_node k (copy_val v) P)"
  have fl: "receives_values_flag P" using assms(1) by (simp add: receives_values_def)
  have "setitem f k v P = Some ?P'"
    using fl assms(2,3,4) by (rule setitem_broadcast)
  moreover have "get ?P' k = Inr (copy_val v)"
    using assms(2) by (simp add: get_map_of map_of_store)
  moreover note targets_after_setitem [OF assms(3), of P]
  ultimately show ?thesis by blast
qed

lemma C4_example:
  "setitem 2 ''key2'' (VCalcComplex 0 10) class_aware_node =
     Some (Qonfig ''class_aware'' ''test_qonfig.class_aware''
       [(''super_key1'',
           VNode (Qonfig ''simple_class_aware'' ''test_qonfig.simple_class_aware''
                    [(''key1'', VCalcFloat 1), (''key2'', VCalcComplex 0 10)] True False)),
        (''key2'', VCalcComplex 0 10),
        (''key3'', VStr ''test'')] True False)"
  by code_simp

theorem C4_propagation_witness:
  "\<exists>P'. setitem 2 ''key2'' (VCalcComplex 0 10) class_aware_node = Some P'
      \<and> get P' ''key2'' = Inr (VCalcComplex 0 10)
      \<and> (\<exists>C. C \<in> set (targets P') \<and> ''key2'' \<in> set (keys C)
              \<and> get C ''key2'' = Inr (VCalcComplex 0 10))"
proof -
  have a: "receives_values class_aware_node"
    by (simp add: class_aware_node_def receives_values_def)
  have b: "''key2'' \<in> set (keys class_aware_node)"
    by (simp add: class_aware_node_def keys_def)
  have c: "kfree_val ''key2'' (VCalcComplex 0 10)" by simp
  have d: "hnode class_aware_node + hentry (VCalcComplex 0 10) \<le> 2"
    by (simp add: class_aware_node_def)
  from C4_propagation [OF a b c d] obtain P' where
    P': "setitem 2 ''key2'' (VCalcComplex 0 10) class_aware_node = Some P'"
      "get P' ''key2'' = Inr (copy_val (VCalcComplex 0 10))"
      "\<forall>C \<in> set (targets P'). ''key2'' \<in> set (keys C)
          \<longrightarrow> get C ''key2'' = Inr (copy_val (VCalcComplex 0 10))"
    by blast
  let ?C = "Qonfig ''simple_class_aware'' ''test_qonfig.simple_class_aware''
              [(''key1'', VCalcFloat 1), (''key2'', VCalcComplex 0 10)] True False"
  from P'(1) C4_example have "?C \<in> set (targets P')"
    by (auto simp: receives_values_def)
  moreover have "''key2'' \<in> set (keys ?C)" by (simp add: keys_def)
  ultimately show ?thesis using P' by (intro exI [of _ P']) auto
qed

text \<open>The claim as it is stated fails in \<^verbatim>\<open>test_no_propagation\<close>: the parent is receptive
  and parent and child declare \<^verbatim>\<open>key2\<close>, yet after \<^verbatim>\<open>config['key2'] = 3\<close> the child of
  the class that never receives values still holds its own value.\<close>

theorem C4_counterexample:
  "receives_values class_aware_no_propagation
   \<and> ''key2'' \<in> set (keys class_aware_no_propagation)
   \<and> ''key2'' \<in> set (keys (no_propagation_node (VCalcFloat 1)))
   \<and> get class_aware_no_propagation ''super_key1'' = Inr (VNode (no_propagation_node (VCalcFloat 1)))
   \<and> setitem 2 ''key2'' (VInt 3) class_aware_no_propagation =
       Some (Qonfig ''class_aware'' ''test_qonfig.class_aware''
               [(''super_key1'', VNode (no_propagation_node (VCalcFloat 1))),
                (''key2'', VInt 3),
                (''key3'', VStr ''test'')] True False)
   \<and> get (no_propagation_node (VCalcFloat 1)) ''key2'' = Inr (VCalcComplex 0 1)"
  by code_simp

subsection \<open>Item assignment\<close>

lemma keys_store_broadcast [simp]: "keys (store k w (broadcast_node k' w' P)) = keys P"
  by simp




subsection \<open>Nodes that are not receptive\<close>




lemma qvalues_set_values [simp]: "qvalues (set_values q vs) = vs"
  by (simp add: set_values_def)








section \<open>Propagation restricted to a class\<close>

lemma class_type_set_values [simp]: "class_type (set_values q vs) = class_type q"
  by (simp add: set_values_def)

lemma class_type_store [simp]: "class_type (store k w q) = class_type q"
  by (simp add: store_def)

lemma class_type_broadcast [simp]: "class_type (broadcast_node k w q) = class_type q"
  by (cases q) simp

lemma keys_overwritten_items [simp]: "map fst (overwritten_items sub T k w vs) = map fst vs"
  by (induction vs) auto

lemma keys_overwritten_node [simp]: "keys (overwritten_node sub T k w q) = keys q"
  by (cases q) (simp add: keys_def)




























text \<open>Below a node that is written, the assignment propagates to every receptive node
  that declares the key, whatever its class: here \<^verbatim>\<open>key2\<close> of the node of
  \<^verbatim>\<open>simple_class_aware\<close> below \<^verbatim>\<open>middle\<close> is overwritten in a propagation restricted to
  \<^verbatim>\<open>class_aware\<close>.\<close>

lemma overwrite_reaches_other_class:
  "propagate_overwrites test_issubclass (Suc 2) ''key2'' ''class_aware'' (VInt 3) outer_node =
     Some (Qonfig ''outer_class_aware'' ''test_qonfig.outer_class_aware''
       [(''first'', VNode simple_node),
        (''middle'',
           VNode (Qonfig ''class_aware'' ''test_qonfig.class_aware''
             [(''super_key1'',
                 VNode (Qonfig ''simple_class_aware'' ''test_qonfig.simple_class_aware''
                          [(''key1'', VCalcFloat 1), (''key2'', VInt 3)] True False)),
              (''key2'', VInt 3),
              (''key3'', VStr ''test'')] True False))] True False)"
  by code_simp


section \<open>Export to a flat series\<close>

subsection \<open>The loops\<close>

lemma pd_series_unfold:
  "pd_series opts (Qonfig c nm vs r nv) =
     (if \<not> is_valid (classes opts) (Qonfig c nm vs r nv) \<and> valid_check opts
      then Inl IncompleteQonfigError
      else
        (case export_loop (enforce_yaml_compatible opts)
                (map (\<lambda>(k, v). (k, v, contribution_of opts k v)) vs)
                [(''qonfig_name'', VStr nm)] of
           Inl e \<Rightarrow> Inl e
         | Inr series \<Rightarrow> delete_excluded (excluded opts) (map fst series) series))"
  by (simp add: contribution_of_def [abs_def])

lemma exported_names_unfold:
  "exported_names opts q = filter (\<lambda>n. \<not> excluded opts n) (raw_names opts q)"
  by (cases q) (simp add: raw_names_def entry_names_def [abs_def])

lemma series_set_new: "k \<notin> fst ` set s \<Longrightarrow> series_set k v s = s @ [(k, v)]"
  by (simp add: series_set_def)

lemma delete_excluded_filter:
  "distinct ks \<Longrightarrow> {k \<in> set ks. ex k} \<subseteq> fst ` set s \<Longrightarrow>
   delete_excluded ex ks s = Inr (filter (\<lambda>(l, x). \<not> (ex l \<and> l \<in> set ks)) s)"
proof (induction ks arbitrary: s)
  case Nil
  then show ?case by simp
next
  case (Cons key rest)
  show ?case
  proof (cases "ex key")
    case True
    with Cons.prems have kin: "key \<in> fst ` set s" by auto
    let ?s' = "filter (\<lambda>(l, x). l \<noteq> key) s"
    have d: "series_del key s = Inr ?s'" using kin by (simp add: series_del_def)
    have "{k \<in> set rest. ex k} \<subseteq> fst ` set ?s'"
      using Cons.prems by force
    with Cons have "delete_excluded ex rest ?s'
        = Inr (filter (\<lambda>(l, x). \<not> (ex l \<and> l \<in> set rest)) ?s')" by simp
    moreover have "filter (\<lambda>(l, x). \<not> (ex l \<and> l \<in> set rest)) ?s'
        = filter (\<lambda>(l, x). \<not> (ex l \<and> l \<in> set (key # rest))) s"
      using True by (auto intro: filter_cong)
    ultimately show ?thesis using True d by simp
  next
    case False
    with Cons.prems have "{k \<in> set rest. ex k} \<subseteq> fst ` set s" by auto
    with Cons have "delete_excluded ex rest s
        = Inr (filter (\<lambda>(l, x). \<not> (ex l \<and> l \<in> set rest)) s)" by simp
    moreover have "filter (\<lambda>(l, x). \<not> (ex l \<and> l \<in> set rest)) s
        = filter (\<lambda>(l, x). \<not> (ex l \<and> l \<in> set (key # rest))) s"
      using False by (auto intro: filter_cong)
    ultimately show ?thesis using False by simp
  qed
qed

lemma delete_excluded_labels:
  assumes "distinct (map fst s)"
  shows "\<exists>s'. delete_excluded ex (map fst s) s = Inr s'
           \<and> map fst s' = filter (\<lambda>n. \<not> ex n) (map fst s)"
proof -
  have "delete_excluded ex (map fst s) s
          = Inr (filter (\<lambda>(l, x). \<not> (ex l \<and> l \<in> set (map fst s))) s)"
    using assms by (intro delete_excluded_filter) auto
  moreover have "filter (\<lambda>(l, x). \<not> (ex l \<and> l \<in> set (map fst s))) s
                   = filter (\<lambda>(l, x). \<not> ex l) s"
    by (rule filter_cong) force+
  moreover have "map fst (filter (\<lambda>(l, x). \<not> ex l) s) = filter (\<lambda>n. \<not> ex n) (map fst s)"
    by (induction s) auto
  ultimately show ?thesis by simp
qed

lemma append_subs_all:
  "append_subs k cs (map Inr ss) series =
     Inr (series @ concat (map (\<lambda>(i, sub). add_prefix (key_index k i @ ''_'') sub)
                            (enumerate cs ss)))"
  by (induction ss arbitrary: cs series) auto

lemma labels_add_prefix: "map fst (add_prefix p s) = map (\<lambda>l. p @ l) (map fst s)"
  by (induction s) (auto simp: add_prefix_def)

lemma labels_indexed:
  "map fst (concat (map (\<lambda>(i, sub). add_prefix (key_index k i @ ''_'') sub) (enumerate cs ss)))
     = concat (map (\<lambda>(i, ns). map (\<lambda>l. key_index k i @ ''_'' @ l) ns)
                   (enumerate cs (map (map fst) ss)))"
  by (induction ss arbitrary: cs) (auto simp: labels_add_prefix)

lemma all_subs:
  "\<forall>x \<in> set xs. \<exists>s. f x = Inr s \<and> map fst s = g x \<Longrightarrow>
   \<exists>ss. map f xs = map Inr ss \<and> map (map fst) ss = map g xs"
proof (induction xs)
  case Nil
  then show ?case by simp
next
  case (Cons x xs)
  then obtain s ss where "f x = Inr s" "map fst s = g x"
    "map f xs = map Inr ss" "map (map fst) ss = map g xs" by auto
  then have "map f (x # xs) = map Inr (s # ss) \<and> map (map fst) (s # ss) = map g (x # xs)"
    by simp
  then show ?case by blast
qed

subsection \<open>One entry, one level\<close>

lemma leaf_step:
  assumes "contribution_of opts k v = Leaf v" and "entry_names opts (k, v) = [k]"
    and "set (entry_names opts (k, v)) \<inter> set (map fst series) = {}"
  shows "\<exists>series'. export_loop ey ((k, v, contribution_of opts k v) # rest) series
                     = export_loop ey rest series'
                  \<and> map fst series' = map fst series @ entry_names opts (k, v)"
proof -
  let ?x = "if ey then enforce_yaml (copy_val v) else copy_val v"
  from assms(2,3) have "k \<notin> fst ` set series" by auto
  then have "series_set k ?x series = series @ [(k, ?x)]" by (rule series_set_new)
  with assms(1,2) show ?thesis
    by (intro exI [of _ "series_set k ?x series"]) simp
qed

lemma empty_step:
  assumes "contribution_of opts k v = SubList []" and "entry_names opts (k, v) = []"
  shows "\<exists>series'. export_loop ey ((k, v, contribution_of opts k v) # rest) series
                     = export_loop ey rest series'
                  \<and> map fst series' = map fst series @ entry_names opts (k, v)"
  using assms by (intro exI [of _ series]) simp

lemma entry_step:
  assumes nodeH: "\<And>q. \<not> excluded opts k \<Longrightarrow> v = VNode q \<Longrightarrow> exports_as opts q"
    and listH: "\<And>xs q. \<not> excluded opts k \<Longrightarrow> v = VList xs \<Longrightarrow> list_all is_node xs
                  \<Longrightarrow> VNode q \<in> set xs \<Longrightarrow> exports_as opts q"
    and dist: "set (entry_names opts (k, v)) \<inter> set (map fst series) = {}"
  shows "\<exists>series'. export_loop ey ((k, v, contribution_of opts k v) # rest) series
                     = export_loop ey rest series'
                  \<and> map fst series' = map fst series @ entry_names opts (k, v)"
proof (cases "excluded opts k")
  case True
  then show ?thesis
    by (intro exI [of _ series]) (simp add: contribution_of_def entry_names_def)
next
  case ne: False
  show ?thesis
  proof (cases v)
    case (VNode q)
    from nodeH [OF ne VNode] obtain sub where sub: "pd_series opts q = Inr sub"
      "map fst sub = exported_names opts q" by (auto simp: exports_as_def)
    with ne VNode show ?thesis
      by (intro exI [of _ "series @ add_prefix (k @ ''_'') sub"])
         (simp add: contribution_of_def entry_names_def labels_add_prefix)
  next
    case (VList xs)
    show ?thesis
    proof (cases "list_all is_node xs")
      case True
      let ?f = "\<lambda>x. case x of VNode q \<Rightarrow> pd_series opts q | _ \<Rightarrow> Inr []"
      let ?g = "\<lambda>x. case x of VNode q \<Rightarrow> exported_names opts q | _ \<Rightarrow> []"
      have "\<forall>x \<in> set xs. \<exists>s. ?f x = Inr s \<and> map fst s = ?g x"
      proof
        fix x assume x: "x \<in> set xs"
        with True obtain q where q: "x = VNode q"
          by (cases x) (auto simp: list_all_iff)
        with x listH [OF ne VList True] have "exports_as opts q" by simp
        with q show "\<exists>s. ?f x = Inr s \<and> map fst s = ?g x" by (simp add: exports_as_def)
      qed
      from all_subs [OF this] obtain ss where ss: "map ?f xs = map Inr ss"
        "map (map fst) ss = map ?g xs" by blast
      with ne VList True show ?thesis
        by (intro exI [of _ "series @ concat (map (\<lambda>(i, sub). add_prefix (key_index k i @ ''_'') sub)
                            (enumerate 0 ss))"])
           (simp add: contribution_of_def entry_names_def append_subs_all labels_indexed
              indexed_names_def)
    next
      case False
      with ne VList have "contribution_of opts k v = Leaf v" "entry_names opts (k, v) = [k]"
        by (simp_all add: contribution_of_def entry_names_def)
      from leaf_step [OF this dist] show ?thesis .
    qed
  next
    case (VDict d)
    show ?thesis
    proof (cases "d = []")
      case True
      with ne VDict have "contribution_of opts k v = SubList []" "entry_names opts (k, v) = []"
        by (simp_all add: contribution_of_def entry_names_def)
      from empty_step [OF this] show ?thesis .
    next
      case False
      with ne VDict have "contribution_of opts k v = Leaf v" "entry_names opts (k, v) = [k]"
        by (simp_all add: contribution_of_def entry_names_def)
      from leaf_step [OF this dist] show ?thesis .
    qed
  next
    case (VStr s)
    show ?thesis
    proof (cases "s = []")
      case True
      with ne VStr have "contribution_of opts k v = SubList []" "entry_names opts (k, v) = []"
        by (simp_all add: contribution_of_def entry_names_def)
      from empty_step [OF this] show ?thesis .
    next
      case False
      with ne VStr have "contribution_of opts k v = Leaf v" "entry_names opts (k, v) = [k]"
        by (simp_all add: contribution_of_def entry_names_def)
      from leaf_step [OF this dist] show ?thesis .
    qed
  next
    case VEmpty
    with ne have "contribution_of opts k v = Leaf v" "entry_names opts (k, v) = [k]"
      by (simp_all add: contribution_of_def entry_names_def)
    from leaf_step [OF this dist] show ?thesis .
  next
    case VNone
    with ne have "contribution_of opts k v = Leaf v" "entry_names opts (k, v) = [k]"
      by (simp_all add: contribution_of_def entry_names_def)
    from leaf_step [OF this dist] show ?thesis .
  next
    case (VBool b)
    with ne have "contribution_of opts k v = Leaf v" "entry_names opts (k, v) = [k]"
      by (simp_all add: contribution_of_def entry_names_def)
    from leaf_step [OF this dist] show ?thesis .
  next
    case (VInt i)
    with ne have "contribution_of opts k v = Leaf v" "entry_names opts (k, v) = [k]"
      by (simp_all add: contribution_of_def entry_names_def)
    from leaf_step [OF this dist] show ?thesis .
  next
    case (VCalcFloat x)
    with ne have "contribution_of opts k v = Leaf v" "entry_names opts (k, v) = [k]"
      by (simp_all add: contribution_of_def entry_names_def)
    from leaf_step [OF this dist] show ?thesis .
  next
    case (VCalcComplex x y)
    with ne have "contribution_of opts k v = Leaf v" "entry_names opts (k, v) = [k]"
      by (simp_all add: contribution_of_def entry_names_def)
    from leaf_step [OF this dist] show ?thesis .
  next
    case (VOpaque n)
    with ne have "contribution_of opts k v = Leaf v" "entry_names opts (k, v) = [k]"
      by (simp_all add: contribution_of_def entry_names_def)
    from leaf_step [OF this dist] show ?thesis .
  qed
qed

lemma loop_labels:
  assumes C: "\<forall>(k, v) \<in> set vs. \<not> excluded opts k \<longrightarrow>
                (\<forall>q. v = VNode q \<longrightarrow> exports_as opts q)
              \<and> (\<forall>xs q. v = VList xs \<and> list_all is_node xs \<and> VNode q \<in> set xs
                     \<longrightarrow> exports_as opts q)"
    and D: "distinct (map fst series @ concat (map (entry_names opts) vs))"
  shows "\<exists>s'. export_loop ey (map (\<lambda>(k, v). (k, v, contribution_of opts k v)) vs) series = Inr s'
            \<and> map fst s' = map fst series @ concat (map (entry_names opts) vs)"
  using assms
proof (induction vs arbitrary: series)
  case Nil
  then show ?case by simp
next
  case (Cons a vs)
  obtain k v where a: "a = (k, v)" by (cases a)
  have d1: "set (entry_names opts (k, v)) \<inter> set (map fst series) = {}"
    using Cons.prems(2) a by auto
  have n1: "\<And>q. \<not> excluded opts k \<Longrightarrow> v = VNode q \<Longrightarrow> exports_as opts q"
    using Cons.prems(1) a by simp
  have l1: "\<And>xs q. \<not> excluded opts k \<Longrightarrow> v = VList xs \<Longrightarrow> list_all is_node xs
                  \<Longrightarrow> VNode q \<in> set xs \<Longrightarrow> exports_as opts q"
    using Cons.prems(1) a by simp
  have "\<exists>series'. export_loop ey ((k, v, contribution_of opts k v)
            # map (\<lambda>(k, v). (k, v, contribution_of opts k v)) vs) series
          = export_loop ey (map (\<lambda>(k, v). (k, v, contribution_of opts k v)) vs) series'
        \<and> map fst series' = map fst series @ entry_names opts (k, v)"
    using n1 l1 d1 by (rule entry_step)
  then obtain series' where s': "export_loop ey ((k, v, contribution_of opts k v)
            # map (\<lambda>(k, v). (k, v, contribution_of opts k v)) vs) series
          = export_loop ey (map (\<lambda>(k, v). (k, v, contribution_of opts k v)) vs) series'"
      "map fst series' = map fst series @ entry_names opts (k, v)" by blast
  have d2: "distinct (map fst series' @ concat (map (entry_names opts) vs))"
    using Cons.prems(2) a s'(2) by simp
  have c2: "\<forall>(k, v) \<in> set vs. \<not> excluded opts k \<longrightarrow>
                (\<forall>q. v = VNode q \<longrightarrow> exports_as opts q)
              \<and> (\<forall>xs q. v = VList xs \<and> list_all is_node xs \<and> VNode q \<in> set xs
                     \<longrightarrow> exports_as opts q)"
    using Cons.prems(1) by simp
  have "\<exists>s'. export_loop ey (map (\<lambda>(k, v). (k, v, contribution_of opts k v)) vs) series' = Inr s'
            \<and> map fst s' = map fst series' @ concat (map (entry_names opts) vs)"
    using c2 d2 by (rule Cons.IH)
  with s' a show ?case by simp
qed

lemma exportable_exports: "exportable opts n \<Longrightarrow> exports_as opts n"
proof (induction opts n rule: exportable.induct)
  case (1 opts c nm vs r nv)
  let ?n = "Qonfig c nm vs r nv"
  from "1.prems" have valid: "valid_check opts \<longrightarrow> is_valid (classes opts) ?n"
    and dist: "distinct (raw_names opts ?n)"
    and ch: "\<forall>(k, v) \<in> set vs. \<not> excluded opts k \<longrightarrow>
              (case v of
                 VNode q \<Rightarrow> exportable opts q
               | VList xs \<Rightarrow>
                   list_all is_node xs \<longrightarrow>
                     (\<forall>x \<in> set xs. case x of VNode q \<Rightarrow> exportable opts q | _ \<Rightarrow> True)
               | _ \<Rightarrow> True)"
    by simp_all
  have C: "\<forall>(k, v) \<in> set vs. \<not> excluded opts k \<longrightarrow>
                (\<forall>q. v = VNode q \<longrightarrow> exports_as opts q)
              \<and> (\<forall>xs q. v = VList xs \<and> list_all is_node xs \<and> VNode q \<in> set xs
                     \<longrightarrow> exports_as opts q)"
  proof (intro ballI, clarify, intro conjI allI impI)
    fix k v q assume a: "(k, v) \<in> set vs" "\<not> excluded opts k" "v = VNode q"
    with ch have "exportable opts q" by force
    with "1.IH"(2) [OF a(1) refl a(2,3)] show "exports_as opts q" by simp
  next
    fix k v xs q assume a: "(k, v) \<in> set vs" "\<not> excluded opts k"
      and b: "v = VList xs \<and> list_all is_node xs \<and> VNode q \<in> set xs"
    with ch have "exportable opts q" by force
    with "1.IH"(1) [OF a(1) refl a(2), of xs "VNode q" q] b show "exports_as opts q" by simp
  qed
  have D: "distinct (map fst [(''qonfig_name'', VStr nm)] @ concat (map (entry_names opts) vs))"
    using dist by (simp add: raw_names_def)
  from loop_labels [OF C D, where ey = "enforce_yaml_compatible opts"]
  obtain s where s: "export_loop (enforce_yaml_compatible opts)
        (map (\<lambda>(k, v). (k, v, contribution_of opts k v)) vs) [(''qonfig_name'', VStr nm)] = Inr s"
      "map fst s = raw_names opts ?n" by (auto simp: raw_names_def)
  from s(2) dist have "distinct (map fst s)" by simp
  from delete_excluded_labels [OF this, of "excluded opts"] obtain s' where
    "delete_excluded (excluded opts) (map fst s) s = Inr s'"
    "map fst s' = filter (\<lambda>n. \<not> excluded opts n) (map fst s)" by blast
  with s valid have "pd_series opts ?n = Inr s' \<and> map fst s' = exported_names opts ?n"
    by (cases "valid_check opts")
       (simp_all add: pd_series_unfold exported_names_unfold
          del: pd_series.simps exported_names.simps)
  then show ?case unfolding exports_as_def by blast
qed

subsection \<open>Exclusion at every level removes at least what one pass removes\<close>

lemma excluded_none [simp]: "\<not> excluded (opts\<lparr>excluded_keys := []\<rparr>) n"
  by (simp add: excluded_def)

lemma indexed_names_mono:
  "length as = length bs \<Longrightarrow> \<forall>i < length as. set (as ! i) \<subseteq> set (bs ! i) \<Longrightarrow>
   set (concat (map (\<lambda>(cs, ns). map (\<lambda>l. key_index k cs @ ''_'' @ l) ns) (enumerate c as)))
     \<subseteq> set (concat (map (\<lambda>(cs, ns). map (\<lambda>l. key_index k cs @ ''_'' @ l) ns) (enumerate c bs)))"
proof (induction as bs arbitrary: c rule: list_induct2)
  case Nil
  then show ?case by simp
next
  case (Cons a as b bs)
  from Cons.prems [rule_format, of 0] have h: "set a \<subseteq> set b" by simp
  have "\<forall>i < length as. set (as ! i) \<subseteq> set (bs ! i)"
  proof (intro allI impI)
    fix i assume "i < length as"
    with Cons.prems [rule_format, of "Suc i"] show "set (as ! i) \<subseteq> set (bs ! i)" by simp
  qed
  from Cons.IH [OF this, of "Suc c"]
  have t: "set (concat (map (\<lambda>(cs, ns). map (\<lambda>l. key_index k cs @ ''_'' @ l) ns)
                    (enumerate (Suc c) as)))
        \<subseteq> set (concat (map (\<lambda>(cs, ns). map (\<lambda>l. key_index k cs @ ''_'' @ l) ns)
                    (enumerate (Suc c) bs)))" .
  from h have "set (map (\<lambda>l. key_index k c @ ''_'' @ l) a)
        \<subseteq> set (map (\<lambda>l. key_index k c @ ''_'' @ l) b)" by auto
  with t have "set (map (\<lambda>l. key_index k c @ ''_'' @ l) a)
          \<union> set (concat (map (\<lambda>(cs, ns). map (\<lambda>l. key_index k cs @ ''_'' @ l) ns)
                    (enumerate (Suc c) as)))
        \<subseteq> set (map (\<lambda>l. key_index k c @ ''_'' @ l) b)
          \<union> set (concat (map (\<lambda>(cs, ns). map (\<lambda>l. key_index k cs @ ''_'' @ l) ns)
                    (enumerate (Suc c) bs)))" by (rule Un_mono [rotated])
  then show ?case by (simp del: set_concat set_map)
qed

lemma exported_names_mono:
  "set (exported_names opts n) \<subseteq> set (exported_names (opts\<lparr>excluded_keys := []\<rparr>) n)"
proof (induction opts n rule: exported_names.induct)
  case (1 opts c nm vs r nv)
  let ?o = "opts\<lparr>excluded_keys := []\<rparr>"
  have e: "set (entry_names opts (k, v)) \<subseteq> set (entry_names ?o (k, v))"
    if kv: "(k, v) \<in> set vs" for k v
  proof (cases "excluded opts k")
    case True
    then show ?thesis by (simp add: entry_names_def)
  next
    case ne: False
    show ?thesis
    proof (cases v)
      case (VNode q)
      with "1.IH"(2) [OF kv refl ne VNode] ne show ?thesis
        by (auto simp: entry_names_def)
    next
      case (VList xs)
      show ?thesis
      proof (cases "list_all is_node xs")
        case True
        have "\<forall>i < length xs.
                set (map (\<lambda>x. case x of VNode q \<Rightarrow> exported_names opts q | _ \<Rightarrow> []) xs ! i)
                \<subseteq> set (map (\<lambda>x. case x of VNode q \<Rightarrow> exported_names ?o q | _ \<Rightarrow> []) xs ! i)"
        proof (intro allI impI)
          fix i assume i: "i < length xs"
          then have m: "xs ! i \<in> set xs" by simp
          show "set (map (\<lambda>x. case x of VNode q \<Rightarrow> exported_names opts q | _ \<Rightarrow> []) xs ! i)
                \<subseteq> set (map (\<lambda>x. case x of VNode q \<Rightarrow> exported_names ?o q | _ \<Rightarrow> []) xs ! i)"
          proof (cases "xs ! i")
            case (VNode q)
            with "1.IH"(1) [OF kv refl ne VList True m VNode] i show ?thesis by simp
          qed (use i in simp_all)
        qed
        then have "set (indexed_names k
                      (map (\<lambda>x. case x of VNode q \<Rightarrow> exported_names opts q | _ \<Rightarrow> []) xs))
              \<subseteq> set (indexed_names k
                      (map (\<lambda>x. case x of VNode q \<Rightarrow> exported_names ?o q | _ \<Rightarrow> []) xs))"
          unfolding indexed_names_def by (intro indexed_names_mono) simp_all
        with ne VList True show ?thesis by (simp add: entry_names_def)
      next
        case False
        with ne VList show ?thesis by (simp add: entry_names_def)
      qed
    qed (use ne in \<open>simp_all add: entry_names_def\<close>)
  qed
  have "set (concat (map (entry_names opts) vs)) \<subseteq> set (concat (map (entry_names ?o) vs))"
    using e by fastforce
  then show ?case
    by (auto simp add: exported_names_unfold raw_names_def
             simp del: exported_names.simps)
qed

lemma exported_subset_claimed:
  "set (exported_names opts n) \<subseteq> set (claimed_names opts n)"
proof -
  have "set (exported_names opts n) \<subseteq> {l. \<not> excluded opts l}"
    by (auto simp add: exported_names_unfold simp del: exported_names.simps)
  with exported_names_mono [of opts n] show ?thesis
    by (auto simp: claimed_names_def)
qed

subsection \<open>The labels of an export\<close>

text \<open>
  Claim C6, as amended. For a node that can be exported, \<^verbatim>\<open>to_pd_series\<close> returns a series
  whose labels are those of \<open>exported_names\<close>: the patterns of \<^verbatim>\<open>excluded_keys\<close> are matched
  in full at every level of the tree, against the key of each entry (an excluded entry
  is left out with everything below it) and against the labels of the level before the
  level above prefixes them. So every label that is returned is among the labels that
  one match against the final names would keep, but not the other way round.
\<close>

theorem C6_excluded_keys:
  assumes "exportable \<lparr>classes = ct, fullmatch = fm, valid_check = vc, excluded_keys = excl,
                       enforce_yaml_compatible = ey\<rparr> n"
  shows "\<exists>s. to_pd_series ct fm vc excl ey n = Inr s
           \<and> map fst s = exported_names \<lparr>classes = ct, fullmatch = fm, valid_check = vc,
                            excluded_keys = excl, enforce_yaml_compatible = ey\<rparr> n
           \<and> set (map fst s) \<subseteq> set (claimed_names \<lparr>classes = ct, fullmatch = fm,
                            valid_check = vc, excluded_keys = excl,
                            enforce_yaml_compatible = ey\<rparr> n)"
proof -
  let ?o = "\<lparr>classes = ct, fullmatch = fm, valid_check = vc, excluded_keys = excl,
             enforce_yaml_compatible = ey\<rparr>"
  from assms have "exports_as ?o n" by (rule exportable_exports)
  then obtain s where s: "pd_series ?o n = Inr s" "map fst s = exported_names ?o n"
    unfolding exports_as_def by blast
  from s(2) exported_subset_claimed [of ?o n]
  have "set (map fst s) \<subseteq> set (claimed_names ?o n)" by simp
  with s show ?thesis unfolding to_pd_series_def by blast
qed

theorem C6_excluded_keys_witness:
  "exportable \<lparr>classes = test_classes, fullmatch = literal_fullmatch, valid_check = True,
               excluded_keys = [''key2''], enforce_yaml_compatible = True\<rparr> two_level_node
   \<and> (\<exists>s. to_pd_series test_classes literal_fullmatch True [''key2''] True two_level_node = Inr s
          \<and> map fst s = [''qonfig_name'', ''key_0_qonfig_name'', ''key_0_key1'',
                          ''key_1_qonfig_name'', ''key_1_key1''])"
proof -
  have e: "exportable \<lparr>classes = test_classes, fullmatch = literal_fullmatch, valid_check = True,
               excluded_keys = [''key2''], enforce_yaml_compatible = True\<rparr> two_level_node"
    by code_simp
  have n: "exported_names \<lparr>classes = test_classes, fullmatch = literal_fullmatch,
               valid_check = True, excluded_keys = [''key2''],
               enforce_yaml_compatible = True\<rparr> two_level_node
           = [''qonfig_name'', ''key_0_qonfig_name'', ''key_0_key1'',
              ''key_1_qonfig_name'', ''key_1_key1'']"
    by code_simp
  from C6_excluded_keys [OF e] n e show ?thesis by auto
qed

text \<open>The claim as it is stated fails on the tree of two levels: no pattern matches
  \<^verbatim>\<open>key_0_key2\<close>, and the label is not in the series, since \<^verbatim>\<open>key2\<close> is matched against the
  key of the nodes in the list.\<close>

theorem C6_counterexample:
  "is_valid test_classes two_level_node
   \<and> ''key_0_key2'' \<in> set (claimed_names \<lparr>classes = test_classes, fullmatch = literal_fullmatch,
         valid_check = True, excluded_keys = [''key2''],
         enforce_yaml_compatible = True\<rparr> two_level_node)
   \<and> \<not> literal_fullmatch ''key2'' ''key_0_key2''
   \<and> to_pd_series test_classes literal_fullmatch True [''key2''] True two_level_node
       = Inr [(''qonfig_name'', VStr ''test_qonfig.list_class_aware''),
              (''key_0_qonfig_name'', VStr ''test_qonfig.simple_class_aware''),
              (''key_0_key1'', VInt 1),
              (''key_1_qonfig_name'', VStr ''test_qonfig.simple_class_aware''),
              (''key_1_key1'', VInt 1)]"
  by code_simp

end
